theory Spec2Isabelle
  imports Main
begin

section \<open>Library functions of Go used by the crawler\<close>

subsection \<open>strings.Split, strings.Join\<close>

text \<open>
  \<^verbatim>\<open>strings.Split(s, sep)\<close> for a separator of one byte, which is what both call sites
  pass (\<^verbatim>\<open>"/"\<close> in createFile, \<^verbatim>\<open>"|"\<close> in buildLinkTemplates). The result always
  has at least one element: the empty string splits into one empty part.
\<close>

fun cons_first :: "char \<Rightarrow> string list \<Rightarrow> string list" where
  "cons_first c [] = [[c]]"
| "cons_first c (p # ps) = (c # p) # ps"

fun Split :: "string \<Rightarrow> char \<Rightarrow> string list" where
  "Split [] sep = [[]]"
| "Split (c # cs) sep =
     (if c = sep then [] # Split cs sep else cons_first c (Split cs sep))"

text \<open>\<^verbatim>\<open>strings.Join(elems, sep)\<close>.\<close>

fun Join :: "string list \<Rightarrow> string \<Rightarrow> string" where
  "Join [] sep = []"
| "Join [e] sep = e"
| "Join (e # e' # es) sep = e @ sep @ Join (e' # es) sep"

subsection \<open>path.Clean, path.Join\<close>

text \<open>
  \<^verbatim>\<open>path.Clean\<close> processes the slash-separated elements of a path from left to right,
  keeping the elements of the result on a stack: empty elements and \<^verbatim>\<open>.\<close> are dropped,
  \<^verbatim>\<open>..\<close> removes the element before it when that is not itself \<^verbatim>\<open>..\<close>, is dropped at
  the top of a rooted path, and is kept at the front of a relative one.
\<close>

definition clean_step :: "bool \<Rightarrow> string list \<Rightarrow> string \<Rightarrow> string list" where
  "clean_step rooted out e =
     (if e = [] \<or> e = ''.'' then out
      else if e = ''..'' then
        (if out \<noteq> [] \<and> last out \<noteq> ''..'' then butlast out
         else if rooted then out
         else out @ [''..''])
      else out @ [e])"

definition clean_elems :: "bool \<Rightarrow> string list \<Rightarrow> string list" where
  "clean_elems rooted es = foldl (clean_step rooted) [] es"

definition path_Clean :: "string \<Rightarrow> string" where
  "path_Clean p =
     (if p = [] then ''.''
      else
        (let rooted = (hd p = CHR ''/'');
             out = clean_elems rooted (Split p (CHR ''/''))
         in if rooted then CHR ''/'' # Join out ''/''
            else if out = [] then ''.''
            else Join out ''/''))"

text \<open>
  \<^verbatim>\<open>path.Join(elem...)\<close>: empty elements are ignored, the rest is joined with slashes
  and cleaned; when every element is empty the result is the empty string.
\<close>

definition path_Join :: "string list \<Rightarrow> string" where
  "path_Join elem =
     (let es = filter (\<lambda>e. e \<noteq> []) elem
      in if es = [] then [] else path_Clean (Join es ''/''))"

section \<open>Configuration\<close>

record PageParam =
  Name :: string
  Url :: string
  PageRanges :: "string list"

record Config =
  TargetDir :: string
  Pages :: "PageParam list"

section \<open>buildLinkTemplates\<close>

text \<open>
  The inner loop over the parts of one page range: \<open>b\<close> is the content of the
  \<^verbatim>\<open>strings.Builder\<close>.
\<close>

fun tplBuilder :: "string list \<Rightarrow> string \<Rightarrow> string" where
  "tplBuilder [] b = b"
| "tplBuilder (part # parts) b =
     tplBuilder parts
       ((if length b > 0 then b @ ''|'' else b) @ ''tileSG-'' @ part)"

text \<open>The outer loop: \<open>templates\<close> is the slice built by \<^verbatim>\<open>append\<close>.\<close>

fun buildLoop :: "string list \<Rightarrow> string list \<Rightarrow> string list" where
  "buildLoop [] templates = templates"
| "buildLoop (p # ranges) templates =
     buildLoop ranges (templates @ [tplBuilder (Split p (CHR ''|'')) []])"

definition buildLinkTemplates :: "string list \<Rightarrow> string list" where
  "buildLinkTemplates ranges = buildLoop ranges []"

section \<open>createFile: the target path\<close>

text \<open>
  The path computation of createFile. The slice expression
  \<^verbatim>\<open>parts[len(parts)-3:len(parts)-1]\<close> panics when \<^verbatim>\<open>len(parts) < 3\<close>; it is evaluated
  before anything touches the file system. The result is the directory and the file
  path, or \<open>None\<close> for the panic.
\<close>

definition createFile_paths :: "string \<Rightarrow> string \<Rightarrow> (string \<times> string) option" where
  "createFile_paths targetDir urlPath =
     (let parts = Split urlPath (CHR ''/'');
          n = length parts
      in if n < 3 then None
         else
           (let dir = path_Join [targetDir, Join (take 2 (drop (n - 3) parts)) ''/'']
            in Some (dir, path_Join [dir, parts ! (n - 1)])))"

section \<open>Regular expressions (package regexp)\<close>

text \<open>
  The syntax tree of a compiled expression and the matching of Go's \<^verbatim>\<open>regexp\<close>
  package: among the matches that start leftmost, the one a backtracking search finds
  first. \<open>AnyNotNL\<close> is \<^verbatim>\<open>.\<close> (any character but a newline), \<open>Star\<close> is the greedy
  \<^verbatim>\<open>*\<close>, \<open>LazyStar\<close> the non-greedy \<^verbatim>\<open>*?\<close>, \<open>Group i\<close> the \<open>i\<close>-th capturing group
  (counted from 1).
\<close>

datatype regex =
    Empty
  | Lit char
  | AnyNotNL
  | Seq regex regex
  | Alt regex regex
  | Star regex
  | LazyStar regex
  | Group nat regex

text \<open>
  \<open>rmatch r s caps\<close> lists, in the order of the backtracking search, every way \<open>r\<close>
  matches a prefix of \<open>s\<close>: the rest of the input and the captures. An iteration of a
  star that consumes nothing is not repeated.
\<close>

fun rmatch :: "regex \<Rightarrow> string \<Rightarrow> string list \<Rightarrow> (string \<times> string list) list" where
  "rmatch Empty s caps = [(s, caps)]"
| "rmatch (Lit c) s caps =
     (case s of [] \<Rightarrow> [] | x # xs \<Rightarrow> if x = c then [(xs, caps)] else [])"
| "rmatch AnyNotNL s caps =
     (case s of [] \<Rightarrow> [] | x # xs \<Rightarrow> if x \<noteq> CHR 0x0A then [(xs, caps)] else [])"
| "rmatch (Seq r1 r2) s caps =
     concat (map (\<lambda>m. rmatch r2 (fst m) (snd m)) (rmatch r1 s caps))"
| "rmatch (Alt r1 r2) s caps = rmatch r1 s caps @ rmatch r2 s caps"
| "rmatch (Star r) s caps =
     concat (map (\<lambda>m. if length (fst m) < length s then rmatch (Star r) (fst m) (snd m) else [])
                 (rmatch r s caps))
     @ [(s, caps)]"
| "rmatch (LazyStar r) s caps =
     (s, caps) #
     concat (map (\<lambda>m. if length (fst m) < length s then rmatch (LazyStar r) (fst m) (snd m) else [])
                 (rmatch r s caps))"
| "rmatch (Group i r) s caps =
     map (\<lambda>m. (fst m, (snd m)[i - 1 := take (length s - length (fst m)) s]))
         (rmatch r s caps)"

text \<open>The expression that matches a literal string.\<close>

fun lits :: "string \<Rightarrow> regex" where
  "lits [] = Empty"
| "lits (c # cs) = Seq (Lit c) (lits cs)"

text \<open>The number of capturing groups (\<^verbatim>\<open>NumSubexp\<close>).\<close>

fun NumSubexp :: "regex \<Rightarrow> nat" where
  "NumSubexp (Seq r1 r2) = max (NumSubexp r1) (NumSubexp r2)"
| "NumSubexp (Alt r1 r2) = max (NumSubexp r1) (NumSubexp r2)"
| "NumSubexp (Star r) = NumSubexp r"
| "NumSubexp (LazyStar r) = NumSubexp r"
| "NumSubexp (Group i r) = max i (NumSubexp r)"
| "NumSubexp _ = 0"

text \<open>
  \<^verbatim>\<open>re.FindAllStringSubmatch(s, -1)\<close>: the successive non-overlapping matches, each as
  the list of the whole match and the captures (an unmatched group is the empty string).
  \<open>abut\<close> says that the previous match ended where \<open>s\<close> starts: an empty match there is
  not delivered. After an empty match the search moves on by one character.
\<close>

function findAll :: "regex \<Rightarrow> string \<Rightarrow> bool \<Rightarrow> string list list" where
  "findAll re s abut =
     (case rmatch re s (replicate (NumSubexp re) []) of
        [] \<Rightarrow> (case s of [] \<Rightarrow> [] | c # cs \<Rightarrow> findAll re cs False)
      | m # ms \<Rightarrow>
          (let consumed = length s - length (fst m) in
           if consumed = 0 then
             (if abut then [] else [[] # snd m]) @
             (case s of [] \<Rightarrow> [] | c # cs \<Rightarrow> findAll re cs False)
           else (take consumed s # snd m) # findAll re (drop consumed s) True))"
  by pat_completeness auto
termination
  by (relation "measure (\<lambda>(re, s, abut). length s)") auto

definition FindAllStringSubmatch :: "regex \<Rightarrow> string \<Rightarrow> string list list" where
  "FindAllStringSubmatch re s = findAll re s False"

section \<open>The crawler's data\<close>

text \<open>The fields of \<^verbatim>\<open>url.URL\<close> the crawler carries along; it assigns to \<open>Path\<close> only.\<close>

record url =
  Scheme :: string
  Opaque :: string
  Host :: string
  Path :: string
  RawPath :: string
  RawQuery :: string
  Fragment :: string

text \<open>
  An HTTP response: the bytes of the body and, when reading the body fails, the error.
\<close>

record response =
  Body :: string
  ReadErr :: "string option"

datatype error =
    RequestErr string  \<comment> \<open>what \<^verbatim>\<open>request\<close> returns: NewRequest or client.Do failed\<close>
  | UnableRequestPage url error  \<comment> \<open>getHTML: unable to request page\<close>
  | ReadAllErr string  \<comment> \<open>the error of ioutil.ReadAll\<close>
  | GetHtmlErr error  \<comment> \<open>handle: error to get html page\<close>
  | CreateDirErr string string  \<comment> \<open>createFile: unable to create dir\<close>
  | OsCreateErr string  \<comment> \<open>the error of os.Create\<close>
  | DownloadErr error  \<comment> \<open>download: unable to downoad file\<close>
  | CopyErr string  \<comment> \<open>the error of io.Copy\<close>

text \<open>What the program does to the outside world, in the order it does it.\<close>

datatype event =
    PollTerminate bool  \<comment> \<open>the \<^verbatim>\<open>select\<close> on \<^verbatim>\<open>terminate\<close>, and whether it was closed\<close>
  | HttpGet url  \<comment> \<open>a call of \<^verbatim>\<open>request\<close>: the GET is built and sent\<close>
  | PrintDownloading url
  | PrintHandleTerminated
  | PrintDownloadingTerminated
  | PrintHandlingFailed string error
  | LogPageError url error
  | LogDownloadError url error
  | LogFatal url error
  | OsStat string
  | OsMkdirAll string
  | OsCreate string
  | IoCopy string nat

text \<open>
  How a call ends: it returns a value, it panics (an unrecovered panic in any goroutine
  ends the process), it ends the process through \<^verbatim>\<open>log.Fatalf\<close> (\<^verbatim>\<open>os.Exit(1)\<close>), or
  it blocks forever.
\<close>

datatype 'a result = Return 'a | Panic | Exit | Block

text \<open>A \<^verbatim>\<open>for ... range\<close> loop either runs to its end or is left by the function ending.\<close>

datatype 'a loop = Completed | Leave "'a result"

text \<open>
  An unbuffered channel with one producer goroutine, seen from its consumer: the values
  sent, in order, and what the producer does after the last one. It closes the channel,
  or it ends and leaves the channel open, or it panics.
\<close>

datatype chan_end = Closed | LeftOpen | ProducerPanic

type_synonym 'a chan = "'a list \<times> chan_end"

text \<open>
  The environment of a run: the global \<^verbatim>\<open>config\<close>, the library calls whose results
  depend on the input syntax (\<^verbatim>\<open>url.Parse\<close>, \<^verbatim>\<open>regexp.Compile\<close>; \<open>None\<close> is the error),
  the network (what a request returns, as a function of its URL), the file system, and
  time, in milliseconds from the moment \<^verbatim>\<open>run\<close> starts the jobs: \<open>duration\<close> is how long
  each step of a job takes, and \<open>cancel_at = Some s\<close> when the interrupt arrives, and
  \<^verbatim>\<open>main\<close> closes \<^verbatim>\<open>terminate\<close>, at the time \<open>s\<close>; \<open>None\<close> when no interrupt arrives.
\<close>

record env =
  config :: Config
  url_Parse :: "string \<Rightarrow> url option"
  regexp_Compile :: "string \<Rightarrow> regex option"
  client_Do :: "url \<Rightarrow> string + response"
  os_Stat_IsNotExist :: "string \<Rightarrow> bool"
  os_MkdirAll :: "string \<Rightarrow> string option"
  os_Create :: "string \<Rightarrow> string option"
  io_Copy :: "string \<Rightarrow> response \<Rightarrow> nat \<times> string option"
  duration :: "event \<Rightarrow> nat"
  cancel_at :: "nat option"

section \<open>request, getHTML\<close>

text \<open>
  \<^verbatim>\<open>request\<close>: a GET with the fixed headers and the timeout of 30 seconds; the error is
  that of \<^verbatim>\<open>http.NewRequest\<close> or of \<^verbatim>\<open>client.Do\<close>.
\<close>

definition request :: "env \<Rightarrow> url \<Rightarrow> event list \<Rightarrow> (error + response) \<times> event list" where
  "request e u t =
     (case client_Do e u of
        Inl err \<Rightarrow> (Inl (RequestErr err), t @ [HttpGet u])
      | Inr resp \<Rightarrow> (Inr resp, t @ [HttpGet u]))"

definition getHTML :: "env \<Rightarrow> url \<Rightarrow> event list \<Rightarrow> (error + string) \<times> event list" where
  "getHTML e u t =
     (case request e u t of
        (Inl err, t') \<Rightarrow> (Inl (UnableRequestPage u err), t')
      | (Inr resp, t') \<Rightarrow>
          (case ReadErr resp of
             Some err \<Rightarrow> (Inl (ReadAllErr err), t')
           | None \<Rightarrow> (Inr (Body resp), t')))"

section \<open>createFile, download\<close>

text \<open>The last statement of createFile: \<^verbatim>\<open>os.Create\<close> of the file path.\<close>

definition createFile_create :: "env \<Rightarrow> string \<Rightarrow> event list \<Rightarrow> (error + string) result \<times> event list" where
  "createFile_create e file t =
     (case os_Create e file of
        Some err \<Rightarrow> (Return (Inl (OsCreateErr err)), t @ [OsCreate file])
      | None \<Rightarrow> (Return (Inr file), t @ [OsCreate file]))"

definition createFile :: "env \<Rightarrow> string \<Rightarrow> event list \<Rightarrow> (error + string) result \<times> event list" where
  "createFile e urlPath t =
     (case createFile_paths (TargetDir (config e)) urlPath of
        None \<Rightarrow> (Panic, t)
      | Some (dir, file) \<Rightarrow>
          (if os_Stat_IsNotExist e dir then
             (case os_MkdirAll e dir of
                Some err \<Rightarrow> (Return (Inl (CreateDirErr dir err)), t @ [OsStat dir, OsMkdirAll dir])
              | None \<Rightarrow> createFile_create e file (t @ [OsStat dir, OsMkdirAll dir]))
           else createFile_create e file (t @ [OsStat dir])))"

text \<open>
  download: when \<^verbatim>\<open>request\<close> fails the code calls \<^verbatim>\<open>log.Fatalf\<close>, which ends the process.
\<close>

definition download :: "env \<Rightarrow> url \<Rightarrow> event list \<Rightarrow> (nat \<times> error option) result \<times> event list" where
  "download e u t =
     (case request e u (t @ [PrintDownloading u]) of
        (Inl err, t') \<Rightarrow> (Exit, t' @ [LogFatal u err])
      | (Inr resp, t') \<Rightarrow>
          (case createFile e (Path u) t' of
             (Return (Inl err), t'') \<Rightarrow> (Return (0, Some (DownloadErr err)), t'')
           | (Return (Inr file), t'') \<Rightarrow>
               (let (n, err) = io_Copy e file resp
                in (Return (n, map_option CopyErr err), t'' @ [IoCopy file n]))
           | (Panic, t'') \<Rightarrow> (Panic, t'')
           | (Exit, t'') \<Rightarrow> (Exit, t'')
           | (Block, t'') \<Rightarrow> (Block, t'')))"

section \<open>The discoverers\<close>

text \<open>
  The expression of getTifUrls, \<^verbatim>\<open>href="(.*\.tif)"\<close>: the star is the greedy one.
\<close>

definition tif_re :: regex where
  "tif_re =
     Seq (lits (''href='' @ [CHR 0x22]))
       (Seq (Group 1 (Seq (Star AnyNotNL) (lits ''.tif''))) (Lit (CHR 0x22)))"

text \<open>
  The loop of getTifUrls' goroutine over the matches: the URLs it sends, and whether it
  panics (\<^verbatim>\<open>m[1]\<close> out of range) instead of ending.
\<close>

fun tif_sends :: "url \<Rightarrow> string list list \<Rightarrow> url list \<times> bool" where
  "tif_sends pageURL [] = ([], False)"
| "tif_sends pageURL (m # matches) =
     (if length m \<le> 1 then ([], True)
      else
        (let tifURL = pageURL\<lparr>Path := path_Join [Path pageURL, m ! 1]\<rparr>;
             (us, p) = tif_sends pageURL matches
         in (tifURL # us, p)))"

text \<open>The loop of parseURLs' goroutine over the matches of one template.\<close>

fun link_sends :: "url \<Rightarrow> string list list \<Rightarrow> url list \<times> bool" where
  "link_sends pageURL [] = ([], False)"
| "link_sends pageURL (m # matches) =
     (if length m \<le> 1 then ([], True)
      else
        (let link = pageURL\<lparr>Path := path_Join [Path pageURL, m ! 1] @ ''/''\<rparr>;
             (us, p) = link_sends pageURL matches
         in (link # us, p)))"

text \<open>
  The loop over the templates: \<^verbatim>\<open>href="(%s)\/"\<close> is formatted with the template and
  compiled; \<^verbatim>\<open>regexp.MustCompile\<close> panics when the expression does not compile.
\<close>

fun tpl_sends :: "env \<Rightarrow> url \<Rightarrow> string \<Rightarrow> string list \<Rightarrow> url list \<times> bool" where
  "tpl_sends e pageURL body [] = ([], False)"
| "tpl_sends e pageURL body (tpl # tpls) =
     (let regxStr = ''href='' @ [CHR 0x22] @ ''('' @ tpl @ '')'' @ [CHR 0x5C] @ ''/'' @ [CHR 0x22]
      in case regexp_Compile e regxStr of
           None \<Rightarrow> ([], True)
         | Some re \<Rightarrow>
             (case link_sends pageURL (FindAllStringSubmatch re body) of
                (us, True) \<Rightarrow> (us, True)
              | (us, False) \<Rightarrow>
                  (let (vs, p) = tpl_sends e pageURL body tpls in (us @ vs, p))))"

text \<open>
  The channels of the file with the cancellation (the \<^verbatim>\<open>handle\<close> that takes
  \<^verbatim>\<open>terminate\<close>): the goroutines end after the last send and do not close the channel.
\<close>

definition getTifUrls :: "url \<Rightarrow> string \<Rightarrow> url chan" where
  "getTifUrls pageURL page =
     (case tif_sends pageURL (FindAllStringSubmatch tif_re page) of
        (us, True) \<Rightarrow> (us, ProducerPanic)
      | (us, False) \<Rightarrow> (us, LeftOpen))"

definition parseURLs :: "env \<Rightarrow> url \<Rightarrow> string \<Rightarrow> string list \<Rightarrow> url chan" where
  "parseURLs e pageURL pageBody pageRanges =
     (case tpl_sends e pageURL pageBody (buildLinkTemplates pageRanges) of
        (us, True) \<Rightarrow> (us, ProducerPanic)
      | (us, False) \<Rightarrow> (us, LeftOpen))"

text \<open>
  The channels of \<^verbatim>\<open>main.go\<close>: the same loops, followed by \<^verbatim>\<open>close(urlChan)\<close>.
\<close>

definition getTifUrls_main_go :: "url \<Rightarrow> string \<Rightarrow> url chan" where
  "getTifUrls_main_go pageURL page =
     (case tif_sends pageURL (FindAllStringSubmatch tif_re page) of
        (us, True) \<Rightarrow> (us, ProducerPanic)
      | (us, False) \<Rightarrow> (us, Closed))"

definition parseURLs_main_go :: "env \<Rightarrow> url \<Rightarrow> string \<Rightarrow> string list \<Rightarrow> url chan" where
  "parseURLs_main_go e pageURL pageBody pageRanges =
     (case tpl_sends e pageURL pageBody (buildLinkTemplates pageRanges) of
        (us, True) \<Rightarrow> (us, ProducerPanic)
      | (us, False) \<Rightarrow> (us, Closed))"

section \<open>handle\<close>

text \<open>
  What \<^verbatim>\<open>range\<close> over a channel does when the producer has sent nothing, or nothing
  more: the loop ends when the channel is closed, the receive blocks forever when the
  producer is gone and the channel is open, and the process ends when the producer
  panics (here: before its first send, while the consumer waits).
\<close>

fun range_end :: "chan_end \<Rightarrow> 'a loop" where
  "range_end Closed = Completed"
| "range_end LeftOpen = Leave Block"
| "range_end ProducerPanic = Leave Panic"

text \<open>
  The channels are unbuffered: a send returns when the consumer takes the value, and the
  producer goes on at once. A producer that panics after a send (\<^verbatim>\<open>regexp.MustCompile\<close>
  of the next template) does so while the consumer has the value just taken in hand.
  \<open>struck rest fin\<close> says that the value taken was the last before the panic: the
  process then ends before the consumer's first steps for this value, the poll and the
  request over the network, have ended, and no step is recorded for it.
\<close>

definition struck :: "url list \<Rightarrow> chan_end \<Rightarrow> bool" where
  "struck rest fin = (rest = [] \<and> fin = ProducerPanic)"

text \<open>
  Time. The steps of a job follow one another from the moment 0; \<open>elapsed e t\<close> is the
  time at which the job has done the steps \<open>t\<close>. A poll of \<^verbatim>\<open>terminate\<close> finds the
  channel closed when the interrupt has arrived by then.
\<close>

fun is_poll :: "event \<Rightarrow> bool" where
  "is_poll (PollTerminate c) = True"
| "is_poll _ = False"

definition elapsed :: "env \<Rightarrow> event list \<Rightarrow> nat" where
  "elapsed e t = sum_list (map (duration e) t)"

definition terminate_closed :: "env \<Rightarrow> event list \<Rightarrow> bool" where
  "terminate_closed e t =
     (case cancel_at e of None \<Rightarrow> False | Some s \<Rightarrow> s \<le> elapsed e t)"

text \<open>The inner loop of handle, over the values of getTifUrls' channel.\<close>

fun handle_files :: "env \<Rightarrow> url list \<Rightarrow> chan_end \<Rightarrow> event list \<Rightarrow> (error option) loop \<times> event list" where
  "handle_files e [] fin t = (range_end fin, t)"
| "handle_files e (fileUrl # rest) fin t =
     (if struck rest fin then (Leave Panic, t)
      else
        (let c = terminate_closed e t; t1 = t @ [PollTerminate c]
         in if c then (Leave (Return None), t1 @ [PrintDownloadingTerminated])
            else
              (case download e fileUrl t1 of
                 (Return (n, Some err), t2) \<Rightarrow>
                   handle_files e rest fin (t2 @ [LogDownloadError fileUrl err])
               | (Return (n, None), t2) \<Rightarrow> handle_files e rest fin t2
               | (Panic, t2) \<Rightarrow> (Leave Panic, t2)
               | (Exit, t2) \<Rightarrow> (Leave Exit, t2)
               | (Block, t2) \<Rightarrow> (Leave Block, t2))))"

text \<open>The outer loop of handle, over the values of parseURLs' channel.\<close>

fun handle_pages :: "env \<Rightarrow> url list \<Rightarrow> chan_end \<Rightarrow> event list \<Rightarrow> (error option) loop \<times> event list" where
  "handle_pages e [] fin t = (range_end fin, t)"
| "handle_pages e (pageUrl # rest) fin t =
     (if struck rest fin then (Leave Panic, t)
      else
        (let c = terminate_closed e t; t1 = t @ [PollTerminate c]
         in if c then (Leave (Return None), t1 @ [PrintHandleTerminated])
            else
              (case getHTML e pageUrl t1 of
                 (Inl err, t2) \<Rightarrow> handle_pages e rest fin (t2 @ [LogPageError pageUrl err])
               | (Inr html, t2) \<Rightarrow>
                   (case getTifUrls pageUrl html of
                      (fileUrls, fin') \<Rightarrow>
                        (case handle_files e fileUrls fin' t2 of
                           (Completed, t3) \<Rightarrow> handle_pages e rest fin t3
                         | (Leave r, t3) \<Rightarrow> (Leave r, t3))))))"

text \<open>
  handle. The error of \<^verbatim>\<open>url.Parse\<close> is discarded; on an error the pointer is nil and
  \<^verbatim>\<open>*parsedUrl\<close> panics.
\<close>

definition handle :: "env \<Rightarrow> PageParam \<Rightarrow> event list \<Rightarrow> (error option) result \<times> event list" where
  "handle e params t =
     (case url_Parse e (Url params) of
        None \<Rightarrow> (Panic, t)
      | Some baseURL \<Rightarrow>
          (case getHTML e baseURL t of
             (Inl err, t1) \<Rightarrow> (Return (Some (GetHtmlErr err)), t1)
           | (Inr html, t1) \<Rightarrow>
               (case parseURLs e baseURL html (PageRanges params) of
                  (pageUrls, fin) \<Rightarrow>
                    (case handle_pages e pageUrls fin t1 of
                       (Completed, t2) \<Rightarrow> (Return None, t2)
                     | (Leave r, t2) \<Rightarrow> (r, t2)))))"

text \<open>The body of the goroutine that \<^verbatim>\<open>run\<close> starts for one page.\<close>

definition run_job :: "env \<Rightarrow> PageParam \<Rightarrow> event list \<Rightarrow> unit result \<times> event list" where
  "run_job e pageParam t =
     (case handle e pageParam t of
        (Return (Some err), t') \<Rightarrow> (Return (), t' @ [PrintHandlingFailed (Name pageParam) err])
      | (Return None, t') \<Rightarrow> (Return (), t')
      | (Panic, t') \<Rightarrow> (Panic, t')
      | (Exit, t') \<Rightarrow> (Exit, t')
      | (Block, t') \<Rightarrow> (Block, t'))"

subsection \<open>run and main\<close>

text \<open>
  \<^verbatim>\<open>run\<close> starts one goroutine per page of the configuration, all at the moment 0, and
  waits for them. For each goroutine: how it ends and the steps it takes, if the process
  lives long enough.
\<close>

definition run :: "env \<Rightarrow> (unit result \<times> event list) list" where
  "run e = map (\<lambda>pageParam. run_job e pageParam []) (Pages (config e))"

text \<open>
  \<^verbatim>\<open>wg.Wait()\<close> returns, and \<^verbatim>\<open>done\<close> is closed, once every goroutine has returned: the
  time of the last return, \<open>None\<close> when some goroutine never returns.
\<close>

definition done_at :: "env \<Rightarrow> nat option" where
  "done_at e =
     (if list_all (\<lambda>j. fst j = Return ()) (run e)
      then Some (fold max (map (\<lambda>j. elapsed e (snd j)) (run e)) 0)
      else None)"

text \<open>
  A panic or a \<^verbatim>\<open>log.Fatalf\<close> in a goroutine ends the process: the time of the earliest
  one, \<open>None\<close> when there is none.
\<close>

definition died_at :: "env \<Rightarrow> nat option" where
  "died_at e =
     (case map (\<lambda>j. elapsed e (snd j)) (filter (\<lambda>j. fst j = Panic \<or> fst j = Exit) (run e)) of
        [] \<Rightarrow> None
      | c # cs \<Rightarrow> Some (fold min cs c))"

text \<open>
  The steps of a job that have ended by the time \<open>T\<close>, and the step that is under way
  then, if any: the exit of the process cuts it short.
\<close>

fun cut :: "env \<Rightarrow> nat \<Rightarrow> event list \<Rightarrow> event list \<times> event option" where
  "cut e T [] = ([], None)"
| "cut e T (ev # evs) =
     (if duration e ev \<le> T
      then (case cut e (T - duration e ev) evs of (steps, c) \<Rightarrow> (ev # steps, c))
      else ([], Some ev))"

text \<open>
  How the process ends and when (\<open>None\<close>: it never ends), and for each job the steps it
  has ended by then and the step that was cut.
\<close>

datatype ending = Done | Terminated | Died

record process =
  ended :: "(ending \<times> nat) option"
  jobs :: "(event list \<times> event option) list"

text \<open>
  \<^verbatim>\<open>main\<close>, after the configuration is loaded: \<^verbatim>\<open>run\<close> is started in a goroutine and the
  \<^verbatim>\<open>select\<close> waits for the interrupt or for \<^verbatim>\<open>done\<close>, whichever comes first (the
  interrupt, when both come at the same time). On \<^verbatim>\<open>done\<close> it prints \<^verbatim>\<open>Done\<close>; on the
  interrupt it prints \<^verbatim>\<open>Terminating\<close>, closes \<^verbatim>\<open>terminate\<close> and sleeps 5 seconds. Then
  \<^verbatim>\<open>main\<close> returns, which ends the process and with it every goroutine, wherever it
  is. The process ends earlier when a goroutine dies. Without an interrupt and with a
  goroutine that never returns, \<^verbatim>\<open>main\<close> waits forever.
\<close>

definition main :: "env \<Rightarrow> process" where
  "main e =
     (let selected =
            (case cancel_at e of
               None \<Rightarrow> map_option (Pair Done) (done_at e)
             | Some s \<Rightarrow>
                 (case done_at e of
                    None \<Rightarrow> Some (Terminated, s + 5000)
                  | Some d \<Rightarrow> if d < s then Some (Done, d) else Some (Terminated, s + 5000)));
          stop =
            (case died_at e of
               None \<Rightarrow> selected
             | Some c \<Rightarrow>
                 (case selected of
                    None \<Rightarrow> Some (Died, c)
                  | Some (how, T) \<Rightarrow> if c < T then Some (Died, c) else Some (how, T)))
      in \<lparr>ended = stop,
          jobs = map (\<lambda>j. case stop of None \<Rightarrow> (snd j, None) | Some (how, T) \<Rightarrow> cut e T (snd j))
                   (run e)\<rparr>)"

subsection \<open>handle in main.go\<close>

text \<open>The same loops without the polls of \<^verbatim>\<open>terminate\<close>, over the closed channels.\<close>

fun handle_files_main_go :: "env \<Rightarrow> url list \<Rightarrow> chan_end \<Rightarrow> event list \<Rightarrow> (error option) loop \<times> event list" where
  "handle_files_main_go e [] fin t = (range_end fin, t)"
| "handle_files_main_go e (fileUrl # rest) fin t =
     (if struck rest fin then (Leave Panic, t)
      else
        (case download e fileUrl t of
           (Return (n, Some err), t2) \<Rightarrow>
             handle_files_main_go e rest fin (t2 @ [LogDownloadError fileUrl err])
         | (Return (n, None), t2) \<Rightarrow> handle_files_main_go e rest fin t2
         | (Panic, t2) \<Rightarrow> (Leave Panic, t2)
         | (Exit, t2) \<Rightarrow> (Leave Exit, t2)
         | (Block, t2) \<Rightarrow> (Leave Block, t2)))"

fun handle_pages_main_go :: "env \<Rightarrow> url list \<Rightarrow> chan_end \<Rightarrow> event list \<Rightarrow> (error option) loop \<times> event list" where
  "handle_pages_main_go e [] fin t = (range_end fin, t)"
| "handle_pages_main_go e (u # rest) fin t =
     (if struck rest fin then (Leave Panic, t)
      else
        (case getHTML e u t of
           (Inl err, t2) \<Rightarrow> handle_pages_main_go e rest fin (t2 @ [LogPageError u err])
         | (Inr html, t2) \<Rightarrow>
             (case getTifUrls_main_go u html of
                (fileUrls, fin') \<Rightarrow>
                  (case handle_files_main_go e fileUrls fin' t2 of
                     (Completed, t3) \<Rightarrow> handle_pages_main_go e rest fin t3
                   | (Leave r, t3) \<Rightarrow> (Leave r, t3)))))"

definition handle_main_go :: "env \<Rightarrow> PageParam \<Rightarrow> event list \<Rightarrow> (error option) result \<times> event list" where
  "handle_main_go e params t =
     (case url_Parse e (Url params) of
        None \<Rightarrow> (Panic, t)
      | Some baseURL \<Rightarrow>
          (case getHTML e baseURL t of
             (Inl err, t1) \<Rightarrow> (Return (Some (GetHtmlErr err)), t1)
           | (Inr html, t1) \<Rightarrow>
               (case parseURLs_main_go e baseURL html (PageRanges params) of
                  (pageUrls, fin) \<Rightarrow>
                    (case handle_pages_main_go e pageUrls fin t1 of
                       (Completed, t2) \<Rightarrow> (Return None, t2)
                     | (Leave r, t2) \<Rightarrow> (r, t2)))))"

section \<open>Target paths\<close>

text \<open>
  An ordinary path segment: not empty, not \<^verbatim>\<open>.\<close> and not \<^verbatim>\<open>..\<close>.
\<close>

definition plain :: "string \<Rightarrow> bool" where
  "plain e = (e \<noteq> [] \<and> e \<noteq> ''.'' \<and> e \<noteq> ''..'')"

text \<open>
  The relative path \<open>rel\<close> appended to the directory \<open>targetDir\<close>: after the cleaned
  directory and a slash, where the empty directory and \<^verbatim>\<open>.\<close> add nothing and the root
  adds its slash only.
\<close>

definition under_dir :: "string \<Rightarrow> string \<Rightarrow> string" where
  "under_dir targetDir rel =
     (if targetDir = [] \<or> path_Clean targetDir = ''.'' then rel
      else if path_Clean targetDir = ''/'' then CHR ''/'' # rel
      else path_Clean targetDir @ CHR ''/'' # rel)"

text \<open>
  The stack of \<^verbatim>\<open>path.Clean\<close> as a string, and what holds of every stack: its elements
  are ordinary or \<^verbatim>\<open>..\<close>, they contain no slash, and \<^verbatim>\<open>..\<close> stands only at the front of
  the stack of a relative path.
\<close>

definition render :: "bool \<Rightarrow> string list \<Rightarrow> string" where
  "render rooted out =
     (if rooted then CHR ''/'' # Join out ''/'' else if out = [] then ''.'' else Join out ''/'')"

fun dots_first :: "string list \<Rightarrow> bool" where
  "dots_first [] = True"
| "dots_first (e # es) = (if e = ''..'' then dots_first es else ''..'' \<notin> set es)"

definition stack_ok :: "bool \<Rightarrow> string list \<Rightarrow> bool" where
  "stack_ok rooted out =
     (list_all (\<lambda>e. e \<noteq> [] \<and> e \<noteq> ''.'' \<and> CHR ''/'' \<notin> set e) out
      \<and> dots_first out \<and> (if rooted then ''..'' \<notin> set out else True))"

section \<open>Greedy matches\<close>

text \<open>
  The expression the specification describes for getTifUrls, with a non-greedy star:
  \<^verbatim>\<open>href="(.*?\.tif)"\<close>, and the URLs it would give. They are compared with those of the
  code.
\<close>

definition tif_re_nongreedy :: regex where
  "tif_re_nongreedy =
     Seq (lits (''href='' @ [CHR 0x22]))
       (Seq (Group 1 (Seq (LazyStar AnyNotNL) (lits ''.tif''))) (Lit (CHR 0x22)))"

definition getTifUrls_nongreedy :: "url \<Rightarrow> string \<Rightarrow> url chan" where
  "getTifUrls_nongreedy pageURL page =
     (case tif_sends pageURL (FindAllStringSubmatch tif_re_nongreedy page) of
        (us, True) \<Rightarrow> (us, ProducerPanic)
      | (us, False) \<Rightarrow> (us, LeftOpen))"

text \<open>
  The length of the first line of a text, and the positions \<open>k\<close> of a text at which the
  string \<open>w\<close> and then the character \<open>q\<close> follow. The greedy star stops at the last such
  position of the line.
\<close>

definition line_length :: "string \<Rightarrow> nat" where
  "line_length s = length (takeWhile (\<lambda>c. c \<noteq> CHR 0x0A) s)"

definition follows_at :: "string \<Rightarrow> char \<Rightarrow> string \<Rightarrow> nat \<Rightarrow> bool" where
  "follows_at w q s k =
     (take (length w) (drop k s) = w \<and> k + length w < length s \<and> s ! (k + length w) = q)"

definition greedy_at :: "string \<Rightarrow> char \<Rightarrow> string \<Rightarrow> nat \<Rightarrow> bool" where
  "greedy_at w q s k =
     (k \<le> line_length s \<and> follows_at w q s k
      \<and> (\<forall>j. k < j \<and> j \<le> line_length s \<longrightarrow> \<not> follows_at w q s j))"

text \<open>
  What the greedy expression finds, said without the expression. \<open>occurrences w s\<close> are
  the positions of \<open>s\<close> at which the string \<open>w\<close> stands. A line gives at most one
  capture: it starts after the first \<open>H\<close> of the line and ends with the last \<open>w\<close> after
  it that \<open>q\<close> follows, when there is one. For getTifUrls \<open>H\<close> is \<^verbatim>\<open>href="\<close>, \<open>w\<close> is
  \<^verbatim>\<open>.tif\<close> and \<open>q\<close> the double quote, and the captures of a page are those of its lines,
  from the first line to the last.
\<close>

definition occurrences :: "string \<Rightarrow> string \<Rightarrow> nat list" where
  "occurrences w s = filter (\<lambda>k. take (length w) (drop k s) = w) [0..<Suc (length s)]"

definition line_capture :: "string \<Rightarrow> string \<Rightarrow> char \<Rightarrow> string \<Rightarrow> string list" where
  "line_capture H w q l =
     (case occurrences H l of
        [] \<Rightarrow> []
      | p # ps \<Rightarrow>
          (let s = drop (p + length H) l
           in case occurrences (w @ [q]) s of
                [] \<Rightarrow> []
              | k # ks \<Rightarrow> [take (last (k # ks) + length w) s]))"

definition tif_captures :: "string \<Rightarrow> string list" where
  "tif_captures page =
     concat (map (line_capture (''href='' @ [CHR 0x22]) ''.tif'' (CHR 0x22))
               (Split page (CHR 0x0A)))"

text \<open>An expression in which no literal is the newline: its matches stay within a line.\<close>

fun no_newline :: "regex \<Rightarrow> bool" where
  "no_newline (Lit c) = (c \<noteq> CHR 0x0A)"
| "no_newline (Seq r1 r2) = (no_newline r1 \<and> no_newline r2)"
| "no_newline (Alt r1 r2) = (no_newline r1 \<and> no_newline r2)"
| "no_newline (Star r) = no_newline r"
| "no_newline (LazyStar r) = no_newline r"
| "no_newline (Group i r) = no_newline r"
| "no_newline r = True"

section \<open>The order of polls, fetches and downloads in a trace\<close>

text \<open>
  An event after which the job goes on: anything but a poll that found \<^verbatim>\<open>terminate\<close>
  closed and the two messages printed on the way out.
\<close>

definition calm :: "event \<Rightarrow> bool" where
  "calm ev =
     (ev \<noteq> PollTerminate True \<and> ev \<noteq> PrintHandleTerminated \<and> ev \<noteq> PrintDownloadingTerminated)"

text \<open>
  \<open>may_follow prev ev\<close>: the event \<open>ev\<close> may come directly after \<open>prev\<close>. A GET comes
  directly after a poll that found \<^verbatim>\<open>terminate\<close> open (the fetch of a sub-page) or after
  the announcement of the download it belongs to; the announcement of a download comes
  directly after a poll that found it open; the messages about termination come directly
  after a poll that found it closed; and after such a poll, or after these messages,
  nothing else comes.
\<close>

fun may_follow :: "event \<Rightarrow> event \<Rightarrow> bool" where
  "may_follow prev (HttpGet u) = (prev = PollTerminate False \<or> prev = PrintDownloading u)"
| "may_follow prev (PrintDownloading u) = (prev = PollTerminate False)"
| "may_follow prev PrintHandleTerminated = (prev = PollTerminate True)"
| "may_follow prev PrintDownloadingTerminated = (prev = PollTerminate True)"
| "may_follow prev ev = calm prev"

text \<open>
  \<open>polls_true e t evs\<close>: in the steps \<open>evs\<close>, taken after the steps \<open>t\<close>, every poll
  reports what \<^verbatim>\<open>terminate\<close> is at its time: closed exactly when the interrupt has arrived.
\<close>

fun polls_true :: "env \<Rightarrow> event list \<Rightarrow> event list \<Rightarrow> bool" where
  "polls_true e t [] = True"
| "polls_true e t (PollTerminate c # evs) =
     (c = terminate_closed e t \<and> polls_true e (t @ [PollTerminate c]) evs)"
| "polls_true e t (ev # evs) = polls_true e (t @ [ev]) evs"

text \<open>The events that are neither polls, nor GETs, nor announcements, nor the last messages.\<close>

fun quiet :: "event \<Rightarrow> bool" where
  "quiet (PollTerminate c) = False"
| "quiet (HttpGet u) = False"
| "quiet (PrintDownloading u) = False"
| "quiet PrintHandleTerminated = False"
| "quiet PrintDownloadingTerminated = False"
| "quiet ev = True"

section \<open>A small archive\<close>

text \<open>
  A concrete run: an index page with one link to a sub-page, which links one tile and
  one text file. Every other request is refused.
\<close>

definition demo_root :: url where
  "demo_root = \<lparr>Scheme = ''https'', Opaque = [], Host = ''files.example.org'',
                 Path = ''/archive/vol1/'', RawPath = [], RawQuery = [], Fragment = []\<rparr>"

definition demo_sub :: url where
  "demo_sub = demo_root\<lparr>Path := ''/archive/vol1/tileSG-5/''\<rparr>"

definition demo_gone :: url where
  "demo_gone = demo_root\<lparr>Path := ''/archive/vol1/tileSG-4/''\<rparr>"

definition demo_file :: url where
  "demo_file = demo_root\<lparr>Path := ''/archive/vol1/tileSG-5/image1.tif''\<rparr>"

definition demo_lost :: url where
  "demo_lost = demo_root\<lparr>Path := ''/archive/vol1/tileSG-5/image0.tif''\<rparr>"

definition demo_index :: string where
  "demo_index = ''<a href='' @ [CHR 0x22] @ ''tileSG-5/'' @ [CHR 0x22] @ ''>tileSG-5/</a>''"

definition demo_subpage :: string where
  "demo_subpage =
     ''<a href='' @ [CHR 0x22] @ ''image1.tif'' @ [CHR 0x22] @ ''>image1.tif</a>'' @ [CHR 0x0A] @
     ''<a href='' @ [CHR 0x22] @ ''notes.txt'' @ [CHR 0x22] @ ''>notes.txt</a>''"

text \<open>A page with two tiles linked on one line.\<close>

definition demo_two_links :: string where
  "demo_two_links =
     ''<a href='' @ [CHR 0x22] @ ''a.tif'' @ [CHR 0x22] @ ''>a</a> '' @
     ''<a href='' @ [CHR 0x22] @ ''b.tif'' @ [CHR 0x22] @ ''>b</a>''"

definition demo_job :: PageParam where
  "demo_job =
     \<lparr>Name = ''vol1'', Url = ''https://files.example.org/archive/vol1/'', PageRanges = [''5'']\<rparr>"

definition demo_bad_job :: PageParam where
  "demo_bad_job = \<lparr>Name = ''vol2'', Url = ''://bad'', PageRanges = [''5'']\<rparr>"

text \<open>A page with two tiles linked on two lines.\<close>

definition demo_two_lines :: string where
  "demo_two_lines =
     ''<a href='' @ [CHR 0x22] @ ''a.tif'' @ [CHR 0x22] @ ''>a</a>'' @ [CHR 0x0A] @
     ''<a href='' @ [CHR 0x22] @ ''b.tif'' @ [CHR 0x22] @ ''>b</a>''"

text \<open>
  The environment: a request takes 200 milliseconds, the copy of the tile 10 seconds,
  any other step no time; no interrupt arrives.
\<close>

definition demo_env :: env where
  "demo_env = \<lparr>
     config = \<lparr>TargetDir = ''/out'', Pages = [demo_job]\<rparr>,
     url_Parse =
       (\<lambda>s. if s = ''https://files.example.org/archive/vol1/'' then Some demo_root else None),
     regexp_Compile =
       (\<lambda>p. if p = ''href='' @ [CHR 0x22] @ ''(tileSG-5)'' @ [CHR 0x5C] @ ''/'' @ [CHR 0x22]
            then Some (Seq (lits (''href='' @ [CHR 0x22]))
                        (Seq (Group 1 (lits ''tileSG-5'')) (lits (''/'' @ [CHR 0x22]))))
            else None),
     client_Do =
       (\<lambda>u. if Path u = ''/archive/vol1/'' then Inr \<lparr>Body = demo_index, ReadErr = None\<rparr>
            else if Path u = ''/archive/vol1/tileSG-5/''
            then Inr \<lparr>Body = demo_subpage, ReadErr = None\<rparr>
            else if Path u = ''/archive/vol1/tileSG-5/image1.tif''
            then Inr \<lparr>Body = ''II*'', ReadErr = None\<rparr>
            else Inl ''connection refused''),
     os_Stat_IsNotExist = (\<lambda>d. True),
     os_MkdirAll = (\<lambda>d. None),
     os_Create = (\<lambda>f. None),
     io_Copy = (\<lambda>f r. (length (Body r), None)),
     duration = (\<lambda>ev. case ev of HttpGet u \<Rightarrow> 200 | IoCopy f n \<Rightarrow> 10000 | _ \<Rightarrow> 0),
     cancel_at = None\<rparr>"

text \<open>
  The same environment with the interrupt at 300 milliseconds, while the sub-page is
  fetched (between the first and the second poll); at one second, while the tile is
  copied, which takes until 10.6 seconds; and at 9 seconds.
\<close>

definition demo_env_cancelled :: env where
  "demo_env_cancelled = demo_env\<lparr>cancel_at := Some 300\<rparr>"

definition demo_env_early :: env where
  "demo_env_early = demo_env\<lparr>cancel_at := Some 1000\<rparr>"

definition demo_env_late :: env where
  "demo_env_late = demo_env\<lparr>cancel_at := Some 9000\<rparr>"

section \<open>Facts about the library functions\<close>

lemma cons_first_not_Nil: "cons_first c ps \<noteq> []"
  by (cases ps) auto

lemma Split_not_Nil: "Split s c \<noteq> []"
  by (induction s) (auto simp: cons_first_not_Nil)

lemma Join_Cons: "Join (x # xs) sep = x @ concat (map (\<lambda>y. sep @ y) xs)"
  by (induction xs arbitrary: x) auto

section \<open>The link templates\<close>

lemma tplBuilder_nonempty:
  "b \<noteq> [] \<Longrightarrow> tplBuilder parts b = b @ concat (map (\<lambda>p. ''|'' @ ''tileSG-'' @ p) parts)"
  by (induction parts arbitrary: b) auto

lemma tplBuilder_Join:
  assumes "parts \<noteq> []"
  shows "tplBuilder parts [] = Join (map ((@) ''tileSG-'') parts) ''|''"
proof -
  from assms obtain p ps where parts: "parts = p # ps"
    by (cases parts) auto
  have "tplBuilder (p # ps) [] = tplBuilder ps (''tileSG-'' @ p)"
    by simp
  also have "\<dots> = (''tileSG-'' @ p) @ concat (map (\<lambda>p. ''|'' @ ''tileSG-'' @ p) ps)"
    by (rule tplBuilder_nonempty) simp
  also have "\<dots> = Join (map ((@) ''tileSG-'') (p # ps)) ''|''"
    by (simp add: Join_Cons comp_def)
  finally show ?thesis
    using parts by simp
qed

lemma buildLoop_map:
  "buildLoop ranges templates =
     templates @ map (\<lambda>p. tplBuilder (Split p (CHR ''|'')) []) ranges"
  by (induction ranges arbitrary: templates) auto

text \<open>
  Claim C3. buildLinkTemplates maps every page range, in order, to its parts between
  the bars, each prefixed by \<^verbatim>\<open>tileSG-\<close>, joined by bars again: the result has the length of
  the input, the empty input gives the empty output, and nothing fails. The last
  conjunct is the example of the specification.
\<close>

theorem buildLinkTemplates_prefixes_parts:
  "buildLinkTemplates ranges =
     map (\<lambda>p. Join (map ((@) ''tileSG-'') (Split p (CHR ''|''))) ''|'') ranges
   \<and> length (buildLinkTemplates ranges) = length ranges
   \<and> buildLinkTemplates [] = []
   \<and> buildLinkTemplates [''1-10'', ''A|B''] = [''tileSG-1-10'', ''tileSG-A|tileSG-B'']"
proof -
  have eq: "buildLinkTemplates rs =
     map (\<lambda>p. Join (map ((@) ''tileSG-'') (Split p (CHR ''|''))) ''|'') rs" for rs
    by (simp add: buildLinkTemplates_def buildLoop_map tplBuilder_Join Split_not_Nil)
  show ?thesis
    by (simp add: eq)
qed

section \<open>The panic of createFile\<close>

text \<open>
  Claim C10. createFile panics exactly when the URL path splits into fewer than three
  parts, and returns (a file or an error) exactly when it splits into three or more;
  the path \<^verbatim>\<open>a.tif\<close> is one that panics, before any event.
\<close>

theorem createFile_panics_iff_short:
  "(fst (createFile e urlPath t) = Panic) = (length (Split urlPath (CHR ''/'')) < 3)
   \<and> (\<exists>r. fst (createFile e urlPath t) = Return r) = (3 \<le> length (Split urlPath (CHR ''/'')))
   \<and> createFile e ''a.tif'' t = (Panic, t)"
  by (auto simp: createFile_def createFile_create_def createFile_paths_def Let_def
      split: option.splits prod.splits)

section \<open>The length of the matches\<close>

lemma rmatch_caps_length:
  "m \<in> set (rmatch r s caps) \<Longrightarrow> length (snd m) = length caps"
proof (induction r s caps arbitrary: m rule: rmatch.induct)
  case (1 s caps)
  then show ?case by simp
next
  case (2 c s caps)
  then show ?case by (auto split: list.splits if_splits)
next
  case (3 s caps)
  then show ?case by (auto split: list.splits if_splits)
next
  case (4 r1 r2 s caps)
  from "4.prems" obtain x where x: "x \<in> set (rmatch r1 s caps)"
      and m: "m \<in> set (rmatch r2 (fst x) (snd x))"
    by auto
  from "4.IH"(2) [OF x m] "4.IH"(1) [OF x] show ?case
    by simp
next
  case (5 r1 r2 s caps)
  from "5.prems" have "m \<in> set (rmatch r1 s caps) \<or> m \<in> set (rmatch r2 s caps)"
    by simp
  with "5.IH" show ?case
    by blast
next
  case (6 r s caps)
  from "6.prems" consider "m = (s, caps)"
    | x where "x \<in> set (rmatch r s caps)" "length (fst x) < length s"
        "m \<in> set (rmatch (Star r) (fst x) (snd x))"
    by (auto simp del: rmatch.simps simp add: rmatch.simps(6) [of r s caps] split: if_splits)
  then show ?case
  proof cases
    case 1
    then show ?thesis by simp
  next
    case (2 x)
    from "6.IH"(2) [OF 2] "6.IH"(1) [OF 2(1)] show ?thesis
      by simp
  qed
next
  case (7 r s caps)
  from "7.prems" consider "m = (s, caps)"
    | x where "x \<in> set (rmatch r s caps)" "length (fst x) < length s"
        "m \<in> set (rmatch (LazyStar r) (fst x) (snd x))"
    by (auto simp del: rmatch.simps simp add: rmatch.simps(7) [of r s caps] split: if_splits)
  then show ?case
  proof cases
    case 1
    then show ?thesis by simp
  next
    case (2 x)
    from "7.IH"(2) [OF 2] "7.IH"(1) [OF 2(1)] show ?thesis
      by simp
  qed
next
  case (8 i r s caps)
  from "8.prems" obtain x where "x \<in> set (rmatch r s caps)"
      and "m = (fst x, (snd x)[i - 1 := take (length s - length (fst x)) s])"
    by auto
  with "8.IH" [of x] show ?case
    by simp
qed

lemma findAll_lengths:
  "m \<in> set (findAll re s abut) \<Longrightarrow> length m = Suc (NumSubexp re)"
proof (induction re s abut arbitrary: m rule: findAll.induct)
  case (1 re s abut)
  note mem = "1.prems"
  show ?case
  proof (cases "rmatch re s (replicate (NumSubexp re) [])")
    case Nil
    show ?thesis
    proof (cases s)
      case Nil_s: Nil
      from mem Nil Nil_s show ?thesis
        by (subst (asm) findAll.simps) simp
    next
      case (Cons c cs)
      from mem Nil Cons have "m \<in> set (findAll re cs False)"
        by (subst (asm) findAll.simps) simp
      with "1.IH"(1) [OF Nil Cons] show ?thesis
        by simp
    qed
  next
    case (Cons x xs)
    have x: "length (snd x) = NumSubexp re"
      using rmatch_caps_length [of x re s "replicate (NumSubexp re) []"] Cons by simp
    show ?thesis
    proof (cases "length s - length (fst x) = 0")
      case True
      show ?thesis
      proof (cases s)
        case Nil
        from mem Cons True Nil x show ?thesis
          by (subst (asm) findAll.simps) (auto split: if_splits)
      next
        case Cons_s: (Cons c cs)
        from mem Cons True Cons_s have "m = [] # snd x \<or> m \<in> set (findAll re cs False)"
          by (subst (asm) findAll.simps) (auto split: if_splits)
        with "1.IH"(2) [OF Cons refl True Cons_s] x show ?thesis
          by auto
      qed
    next
      case False
      from mem Cons False have "m = take (length s - length (fst x)) s # snd x
          \<or> m \<in> set (findAll re (drop (length s - length (fst x)) s) True)"
        by (subst (asm) findAll.simps) (auto simp: Let_def)
      with "1.IH"(3) [OF Cons refl False] x show ?thesis
        by auto
    qed
  qed
qed

lemma tif_sends_no_panic:
  "\<forall>m \<in> set ms. 1 < length m \<Longrightarrow> snd (tif_sends pageURL ms) = False"
  by (induction ms) (auto simp: Let_def split: prod.splits)

lemma tif_never_panics: "snd (tif_sends pageURL (FindAllStringSubmatch tif_re page)) = False"
proof -
  have "NumSubexp tif_re = 1"
    by (simp add: tif_re_def)
  then have "\<forall>m \<in> set (FindAllStringSubmatch tif_re page). 1 < length m"
    using findAll_lengths [of _ tif_re page False] by (simp add: FindAllStringSubmatch_def)
  then show ?thesis
    by (rule tif_sends_no_panic)
qed

lemma getTifUrls_ends:
  "snd (getTifUrls pageURL page) = LeftOpen" "snd (getTifUrls_main_go pageURL page) = Closed"
  using tif_never_panics [of pageURL page]
  by (auto simp: getTifUrls_def getTifUrls_main_go_def split: prod.splits bool.splits)

lemma parseURLs_not_closed: "snd (parseURLs e pageURL body ranges) \<noteq> Closed"
  by (auto simp: parseURLs_def split: prod.splits bool.splits)

section \<open>Facts about the channels, the time and the steps\<close>

lemma struck_simps [simp]:
  "struck (u # us) fin = False" "struck us Closed = False" "struck us LeftOpen = False"
  "struck [] ProducerPanic = True"
  by (simp_all add: struck_def)

lemma elapsed_simps [simp]:
  "elapsed e [] = 0" "elapsed e (ev # t) = duration e ev + elapsed e t"
  "elapsed e (t @ t') = elapsed e t + elapsed e t'"
  by (simp_all add: elapsed_def)

lemma terminate_closed_mono: "terminate_closed e t \<Longrightarrow> terminate_closed e (t @ evs)"
  by (auto simp: terminate_closed_def split: option.splits)

lemma fst_getHTML: "fst (getHTML e u t) = fst (getHTML e u t0)"
  by (simp add: getHTML_def request_def split: sum.splits option.splits)

lemma snd_getHTML: "snd (getHTML e u t) = t @ [HttpGet u]"
  by (simp add: getHTML_def request_def split: sum.splits option.splits)

lemma getHTML_eq: "getHTML e u t = (fst (getHTML e u t0), t @ [HttpGet u])"
  using fst_getHTML [of e u t t0] snd_getHTML [of e u t] by (metis prod.collapse)

lemma createFile_events:
  "\<exists>evs. snd (createFile e p t) = t @ evs \<and> (\<forall>ev \<in> set evs. quiet ev)"
  by (auto simp: createFile_def createFile_create_def split: option.splits prod.splits)

lemma download_events:
  "\<exists>evs. snd (download e u t) = t @ PrintDownloading u # HttpGet u # evs
         \<and> (\<forall>ev \<in> set evs. quiet ev)"
proof (cases "client_Do e u")
  case (Inl err)
  then show ?thesis
    by (simp add: download_def request_def)
next
  case (Inr resp)
  obtain evs where c: "snd (createFile e (Path u) (t @ [PrintDownloading u, HttpGet u]))
      = (t @ [PrintDownloading u, HttpGet u]) @ evs" and q: "\<forall>ev \<in> set evs. quiet ev"
    using createFile_events by blast
  obtain r t' where rt: "createFile e (Path u) (t @ [PrintDownloading u, HttpGet u]) = (r, t')"
    by (cases "createFile e (Path u) (t @ [PrintDownloading u, HttpGet u])")
  with c have t': "t' = (t @ [PrintDownloading u, HttpGet u]) @ evs"
    by simp
  show ?thesis
    using Inr rt t' q
    by (cases r) (auto simp: download_def request_def split: sum.splits prod.splits)
qed

text \<open>Every loop only adds steps to those taken before.\<close>

lemma handle_files_prefix: "\<exists>evs. snd (handle_files e us fin t) = t @ evs"
proof (induction us arbitrary: t)
  case Nil
  show ?case by simp
next
  case (Cons u us)
  obtain r t2 where rt: "download e u (t @ [PollTerminate False]) = (r, t2)"
    by (cases "download e u (t @ [PollTerminate False])")
  obtain D where t2: "t2 = t @ D"
    using download_events [of e u "t @ [PollTerminate False]"] rt by auto
  have "\<exists>evs. snd (handle_files e us fin (t @ D')) = t @ evs" for D'
    using Cons.IH [of "t @ D'"] by auto
  note ih = this [of D] this [of "D @ [x]" for x, simplified]
  show ?case
    using rt t2 ih
    by (cases r) (auto simp: Let_def split: option.splits prod.splits)
qed

lemma handle_pages_prefix: "\<exists>evs. snd (handle_pages e us fin t) = t @ evs"
proof (induction us arbitrary: t)
  case Nil
  show ?case by simp
next
  case (Cons u us)
  let ?G = "[PollTerminate False, HttpGet u]"
  obtain r where g: "getHTML e u (t @ [PollTerminate False]) = (r, t @ ?G)"
    using snd_getHTML [of e u "t @ [PollTerminate False]"]
    by (cases "getHTML e u (t @ [PollTerminate False])") simp
  have ih: "\<exists>evs. snd (handle_pages e us fin (t @ D')) = t @ evs" for D'
    using Cons.IH [of "t @ D'"] by auto
  have f: "\<exists>evs. handle_files e fs fin' (t @ ?G) = (l, t3) \<longrightarrow> t3 = t @ ?G @ evs" for fs fin' l t3
    using handle_files_prefix [of e fs fin' "t @ ?G"] by auto
  show ?case
  proof (cases "struck us fin \<or> terminate_closed e t")
    case True
    then show ?thesis by auto
  next
    case False
    show ?thesis
    proof (cases r)
      case (Inl err)
      with False g ih [of "?G @ [LogPageError u err]"] show ?thesis by simp
    next
      case (Inr html)
      obtain fs fin' where tif: "getTifUrls u html = (fs, fin')"
        by (cases "getTifUrls u html")
      obtain l t3 where l: "handle_files e fs fin' (t @ ?G) = (l, t3)"
        by (cases "handle_files e fs fin' (t @ ?G)")
      from f [of fs fin' l t3] l obtain evs where t3: "t3 = t @ ?G @ evs"
        by auto
      show ?thesis
        using False g Inr tif l t3 ih [of "?G @ evs"]
        by (cases l) auto
    qed
  qed
qed

lemma handle_files_main_go_prefix: "\<exists>evs. snd (handle_files_main_go e us fin t) = t @ evs"
proof (induction us arbitrary: t)
  case Nil
  show ?case by simp
next
  case (Cons u us)
  obtain r t2 where rt: "download e u t = (r, t2)"
    by (cases "download e u t")
  obtain D where t2: "t2 = t @ D"
    using download_events [of e u t] rt by auto
  have "\<exists>evs. snd (handle_files_main_go e us fin (t @ D')) = t @ evs" for D'
    using Cons.IH [of "t @ D'"] by auto
  note ih = this [of D] this [of "D @ [x]" for x, simplified]
  show ?case
    using rt t2 ih
    by (cases r) (auto simp: Let_def split: option.splits prod.splits)
qed

lemma handle_pages_main_go_prefix: "\<exists>evs. snd (handle_pages_main_go e us fin t) = t @ evs"
proof (induction us arbitrary: t)
  case Nil
  show ?case by simp
next
  case (Cons u us)
  let ?G = "[HttpGet u]"
  obtain r where g: "getHTML e u t = (r, t @ ?G)"
    using snd_getHTML [of e u t] by (cases "getHTML e u t") simp
  have ih: "\<exists>evs. snd (handle_pages_main_go e us fin (t @ D')) = t @ evs" for D'
    using Cons.IH [of "t @ D'"] by auto
  show ?case
  proof (cases "struck us fin")
    case True
    then show ?thesis by auto
  next
    case False
    show ?thesis
    proof (cases r)
      case (Inl err)
      with False g ih [of "?G @ [LogPageError u err]"] show ?thesis by simp
    next
      case (Inr html)
      obtain fs fin' where tif: "getTifUrls_main_go u html = (fs, fin')"
        by (cases "getTifUrls_main_go u html")
      obtain l t3 where l: "handle_files_main_go e fs fin' (t @ ?G) = (l, t3)"
        by (cases "handle_files_main_go e fs fin' (t @ ?G)")
      from handle_files_main_go_prefix [of e fs fin' "t @ ?G"] l obtain evs where
        t3: "t3 = t @ ?G @ evs"
        by auto
      show ?thesis
        using False g Inr tif l t3 ih [of "?G @ evs"]
        by (cases l) auto
    qed
  qed
qed

text \<open>Nothing but the polls depends on the time of the interrupt.\<close>

lemma tpl_sends_cancel_at:
  "tpl_sends (e\<lparr>cancel_at := k\<rparr>) pageURL body tpls = tpl_sends e pageURL body tpls"
  by (induction tpls) (auto simp: Let_def split: option.splits prod.splits bool.splits)

lemma createFile_cancel_at:
  "createFile (e\<lparr>cancel_at := k\<rparr>) p t = createFile e p t"
  by (simp add: createFile_def createFile_create_def split: option.splits prod.splits)

lemma cancel_at_irrelevant [simp]:
  "getHTML (e\<lparr>cancel_at := k\<rparr>) u t = getHTML e u t"
  "download (e\<lparr>cancel_at := k\<rparr>) u t = download e u t"
  "parseURLs (e\<lparr>cancel_at := k\<rparr>) root body ranges = parseURLs e root body ranges"
  "elapsed (e\<lparr>cancel_at := k\<rparr>) t = elapsed e t"
  "terminate_closed (e\<lparr>cancel_at := Some s\<rparr>) t = (s \<le> elapsed e t)"
  by (simp_all add: getHTML_def request_def download_def createFile_cancel_at
      parseURLs_def tpl_sends_cancel_at elapsed_def terminate_closed_def
      split: sum.splits prod.splits result.splits)

section \<open>The run on the small archive\<close>

lemmas path_defs = path_Join_def path_Clean_def clean_elems_def clean_step_def

lemma demo_templates: "buildLinkTemplates [''5''] = [''tileSG-5'']"
  by (simp add: buildLinkTemplates_def)

lemma demo_parseURLs:
  "parseURLs demo_env demo_root demo_index [''5''] = ([demo_sub], LeftOpen)"
  "parseURLs_main_go demo_env demo_root demo_index [''5''] = ([demo_sub], Closed)"
  by (simp_all add: parseURLs_def parseURLs_main_go_def demo_templates
      demo_env_def demo_root_def demo_index_def demo_sub_def
      FindAllStringSubmatch_def path_defs)

lemma demo_getTifUrls:
  "getTifUrls demo_sub demo_subpage = ([demo_file], LeftOpen)"
  "getTifUrls_main_go demo_sub demo_subpage = ([demo_file], Closed)"
  by (simp_all add: getTifUrls_def getTifUrls_main_go_def
      demo_root_def demo_subpage_def demo_sub_def demo_file_def
      FindAllStringSubmatch_def tif_re_def path_defs)

lemma demo_getHTML:
  "getHTML demo_env demo_root t = (Inr demo_index, t @ [HttpGet demo_root])"
  "getHTML demo_env demo_sub t = (Inr demo_subpage, t @ [HttpGet demo_sub])"
  "getHTML demo_env demo_gone t =
     (Inl (UnableRequestPage demo_gone (RequestErr ''connection refused'')), t @ [HttpGet demo_gone])"
  by (simp_all add: getHTML_def request_def demo_env_def demo_root_def demo_sub_def demo_gone_def)

lemma demo_download:
  "download demo_env demo_file t =
     (Return (3, None),
      t @ [PrintDownloading demo_file, HttpGet demo_file, OsStat ''/out/vol1/tileSG-5'',
           OsMkdirAll ''/out/vol1/tileSG-5'', OsCreate ''/out/vol1/tileSG-5/image1.tif'',
           IoCopy ''/out/vol1/tileSG-5/image1.tif'' 3])"
  by (simp add: download_def request_def createFile_def createFile_create_def createFile_paths_def
      demo_env_def demo_root_def demo_file_def path_defs)

lemma demo_not_cancelled: "terminate_closed demo_env t = False"
  by (simp add: terminate_closed_def demo_env_def)

lemma demo_duration:
  "duration demo_env ev = (case ev of HttpGet u \<Rightarrow> 200 | IoCopy f n \<Rightarrow> 10000 | _ \<Rightarrow> 0)"
  by (simp add: demo_env_def)

lemma demo_parse:
  "url_Parse demo_env (Url demo_job) = Some demo_root"
  "PageRanges demo_job = [''5'']"
  by (simp_all add: demo_env_def demo_job_def)

lemma demo_handle:
  "handle demo_env demo_job [] =
     (Block,
      [HttpGet demo_root, PollTerminate False, HttpGet demo_sub, PollTerminate False,
       PrintDownloading demo_file, HttpGet demo_file, OsStat ''/out/vol1/tileSG-5'',
       OsMkdirAll ''/out/vol1/tileSG-5'', OsCreate ''/out/vol1/tileSG-5/image1.tif'',
       IoCopy ''/out/vol1/tileSG-5/image1.tif'' 3])"
  by (simp add: handle_def demo_parse demo_getHTML demo_parseURLs demo_getTifUrls demo_download
      demo_not_cancelled)

lemma demo_handle_main_go:
  "handle_main_go demo_env demo_job [] =
     (Return None,
      [HttpGet demo_root, HttpGet demo_sub,
       PrintDownloading demo_file, HttpGet demo_file, OsStat ''/out/vol1/tileSG-5'',
       OsMkdirAll ''/out/vol1/tileSG-5'', OsCreate ''/out/vol1/tileSG-5/image1.tif'',
       IoCopy ''/out/vol1/tileSG-5/image1.tif'' 3])"
  by (simp add: handle_main_go_def demo_parse demo_getHTML demo_parseURLs demo_getTifUrls
      demo_download)

text \<open>The steps of the job on the small archive, and the time at which they have ended.\<close>

lemma demo_elapsed:
  "elapsed demo_env [HttpGet demo_root] = 200"
  "elapsed demo_env [HttpGet demo_root, PollTerminate False, HttpGet demo_sub] = 400"
  by (simp_all add: demo_duration)

lemma demo_handle_interrupted:
  assumes "400 < s"
  shows "handle (demo_env\<lparr>cancel_at := Some s\<rparr>) demo_job [] = handle demo_env demo_job []"
  using assms
  by (simp add: handle_def demo_parse demo_getHTML demo_parseURLs demo_getTifUrls demo_download
      demo_not_cancelled demo_duration)

section \<open>Failures of single fetches\<close>

text \<open>
  Claim C9. When the fetch of a sub-page fails, handle logs the failure and goes on with
  the rest of the sequence: the iteration is the poll, the GET and the log line, and
  nothing else. When a sub-page follows, the next steps are its poll and its GET; when
  none follows, the loop is at the end of the channel. The last three conjuncts are the
  loop of \<^verbatim>\<open>main.go\<close>, which has no poll and whose channel is closed. The cases left
  out are those in which the job does not get to the fetch or to the next sub-page:
  \<^verbatim>\<open>terminate\<close> is closed at the poll, or the process has ended with the panic of the
  producer.
\<close>

theorem failed_subpage_fetch_is_skipped:
  assumes "fst (getHTML e pageUrl t0) = Inl err"
  shows "(\<not> terminate_closed e t \<and> \<not> struck rest fin \<longrightarrow>
            handle_pages e (pageUrl # rest) fin t =
            handle_pages e rest fin
              (t @ [PollTerminate False, HttpGet pageUrl, LogPageError pageUrl err]))
         \<and> (\<not> terminate_closed e (t @ [PollTerminate False, HttpGet pageUrl, LogPageError pageUrl err])
              \<and> \<not> struck rest fin \<longrightarrow>
            take (length t + 5) (snd (handle_pages e (pageUrl # nextUrl # rest) fin t)) =
              t @ [PollTerminate False, HttpGet pageUrl, LogPageError pageUrl err,
                   PollTerminate False, HttpGet nextUrl])
         \<and> (\<not> terminate_closed e t \<longrightarrow>
            handle_pages e [pageUrl] LeftOpen t =
              (Leave Block, t @ [PollTerminate False, HttpGet pageUrl, LogPageError pageUrl err]))
         \<and> (\<not> struck rest fin \<longrightarrow>
            handle_pages_main_go e (pageUrl # rest) fin t =
            handle_pages_main_go e rest fin (t @ [HttpGet pageUrl, LogPageError pageUrl err]))
         \<and> (\<not> struck rest fin \<longrightarrow>
            take (length t + 3) (snd (handle_pages_main_go e (pageUrl # nextUrl # rest) fin t)) =
              t @ [HttpGet pageUrl, LogPageError pageUrl err, HttpGet nextUrl])
         \<and> handle_pages_main_go e [pageUrl] Closed t =
              (Completed, t @ [HttpGet pageUrl, LogPageError pageUrl err])"
proof -
  have g: "getHTML e pageUrl t' = (Inl err, t' @ [HttpGet pageUrl])" for t'
    using getHTML_eq [of e pageUrl t' t0] assms by simp
  let ?L = "[PollTerminate False, HttpGet pageUrl, LogPageError pageUrl err]"
  let ?M = "[HttpGet pageUrl, LogPageError pageUrl err]"
  have skip: "handle_pages e (pageUrl # us) fin t = handle_pages e us fin (t @ ?L)"
    if "\<not> terminate_closed e t" "\<not> struck us fin" for us fin
    using that by (simp add: g)
  have skip': "handle_pages_main_go e (pageUrl # us) fin t = handle_pages_main_go e us fin (t @ ?M)"
    if "\<not> struck us fin" for us fin
    using that by (simp add: g)
  have "take (length t + 5) (snd (handle_pages e (pageUrl # nextUrl # rest) fin t)) =
      t @ ?L @ [PollTerminate False, HttpGet nextUrl]"
    if op: "\<not> terminate_closed e (t @ ?L)" and ns: "\<not> struck rest fin"
  proof -
    have "\<not> terminate_closed e t"
      using op terminate_closed_mono by blast
    then have 1: "handle_pages e (pageUrl # nextUrl # rest) fin t =
        handle_pages e (nextUrl # rest) fin (t @ ?L)"
      by (intro skip) simp_all
    let ?t = "t @ ?L @ [PollTerminate False, HttpGet nextUrl]"
    obtain r where n: "getHTML e nextUrl (t @ ?L @ [PollTerminate False]) = (r, ?t)"
      using snd_getHTML [of e nextUrl "t @ ?L @ [PollTerminate False]"]
      by (cases "getHTML e nextUrl (t @ ?L @ [PollTerminate False])") simp
    have "\<exists>evs. snd (handle_pages e (nextUrl # rest) fin (t @ ?L)) = ?t @ evs"
    proof (cases r)
      case (Inl err')
      with op ns n handle_pages_prefix [of e rest fin "?t @ [LogPageError nextUrl err']"]
      show ?thesis by auto
    next
      case (Inr html)
      obtain fs fin' where tif: "getTifUrls nextUrl html = (fs, fin')"
        by (cases "getTifUrls nextUrl html")
      obtain l t3 where l: "handle_files e fs fin' ?t = (l, t3)"
        by (cases "handle_files e fs fin' ?t")
      from handle_files_prefix [of e fs fin' ?t] l obtain evs where t3: "t3 = ?t @ evs"
        by auto
      from handle_pages_prefix [of e rest fin t3] t3 obtain evs' where
        "snd (handle_pages e rest fin t3) = ?t @ evs'"
        by auto
      with op ns n Inr tif l t3 show ?thesis
        by (cases l) auto
    qed
    with 1 show ?thesis
      by auto
  qed
  moreover have "take (length t + 3) (snd (handle_pages_main_go e (pageUrl # nextUrl # rest) fin t)) =
      t @ ?M @ [HttpGet nextUrl]"
    if ns: "\<not> struck rest fin"
  proof -
    have 1: "handle_pages_main_go e (pageUrl # nextUrl # rest) fin t =
        handle_pages_main_go e (nextUrl # rest) fin (t @ ?M)"
      by (intro skip') simp
    let ?t = "t @ ?M @ [HttpGet nextUrl]"
    obtain r where n: "getHTML e nextUrl (t @ ?M) = (r, ?t)"
      using snd_getHTML [of e nextUrl "t @ ?M"]
      by (cases "getHTML e nextUrl (t @ ?M)") simp
    have "\<exists>evs. snd (handle_pages_main_go e (nextUrl # rest) fin (t @ ?M)) = ?t @ evs"
    proof (cases r)
      case (Inl err')
      with ns n handle_pages_main_go_prefix [of e rest fin "?t @ [LogPageError nextUrl err']"]
      show ?thesis by auto
    next
      case (Inr html)
      obtain fs fin' where tif: "getTifUrls_main_go nextUrl html = (fs, fin')"
        by (cases "getTifUrls_main_go nextUrl html")
      obtain l t3 where l: "handle_files_main_go e fs fin' ?t = (l, t3)"
        by (cases "handle_files_main_go e fs fin' ?t")
      from handle_files_main_go_prefix [of e fs fin' ?t] l obtain evs where t3: "t3 = ?t @ evs"
        by auto
      from handle_pages_main_go_prefix [of e rest fin t3] t3 obtain evs' where
        "snd (handle_pages_main_go e rest fin t3) = ?t @ evs'"
        by auto
      with ns n Inr tif l t3 show ?thesis
        by (cases l) auto
    qed
    with 1 show ?thesis
      by auto
  qed
  moreover have "handle_pages e [pageUrl] LeftOpen t = (Leave Block, t @ ?L)"
    if "\<not> terminate_closed e t"
    using skip [of "[]" LeftOpen] that by simp
  moreover have "handle_pages_main_go e [pageUrl] Closed t = (Completed, t @ ?M)"
    using skip' [of "[]" Closed] by simp
  ultimately show ?thesis
    using skip skip' by simp
qed

text \<open>
  On the small archive: the sub-page \<^verbatim>\<open>tileSG-4/\<close> is refused and skipped, and the job goes
  on to fetch \<^verbatim>\<open>tileSG-5/\<close> and to download its tile, in both files.
\<close>

theorem failed_subpage_fetch_is_skipped_witness:
  "fst (getHTML demo_env demo_gone []) =
     Inl (UnableRequestPage demo_gone (RequestErr ''connection refused''))
   \<and> \<not> terminate_closed demo_env []
   \<and> \<not> struck [demo_sub] LeftOpen \<and> \<not> struck [] LeftOpen \<and> \<not> struck [] Closed
   \<and> handle_pages demo_env [demo_gone, demo_sub] LeftOpen [] =
       (Leave Block,
        [PollTerminate False, HttpGet demo_gone,
         LogPageError demo_gone (UnableRequestPage demo_gone (RequestErr ''connection refused'')),
         PollTerminate False, HttpGet demo_sub, PollTerminate False,
         PrintDownloading demo_file, HttpGet demo_file, OsStat ''/out/vol1/tileSG-5'',
         OsMkdirAll ''/out/vol1/tileSG-5'', OsCreate ''/out/vol1/tileSG-5/image1.tif'',
         IoCopy ''/out/vol1/tileSG-5/image1.tif'' 3])
   \<and> handle_pages_main_go demo_env [demo_gone, demo_sub] Closed [] =
       (Completed,
        [HttpGet demo_gone,
         LogPageError demo_gone (UnableRequestPage demo_gone (RequestErr ''connection refused'')),
         HttpGet demo_sub,
         PrintDownloading demo_file, HttpGet demo_file, OsStat ''/out/vol1/tileSG-5'',
         OsMkdirAll ''/out/vol1/tileSG-5'', OsCreate ''/out/vol1/tileSG-5/image1.tif'',
         IoCopy ''/out/vol1/tileSG-5/image1.tif'' 3])
   \<and> take 5 (snd (handle_pages demo_env [demo_gone, demo_sub] LeftOpen [])) =
       [PollTerminate False, HttpGet demo_gone,
        LogPageError demo_gone (UnableRequestPage demo_gone (RequestErr ''connection refused'')),
        PollTerminate False, HttpGet demo_sub]
   \<and> take 3 (snd (handle_pages_main_go demo_env [demo_gone, demo_sub] Closed [])) =
       [HttpGet demo_gone,
        LogPageError demo_gone (UnableRequestPage demo_gone (RequestErr ''connection refused'')),
        HttpGet demo_sub]
   \<and> handle_pages demo_env [demo_gone] LeftOpen [] =
       (Leave Block,
        [PollTerminate False, HttpGet demo_gone,
         LogPageError demo_gone (UnableRequestPage demo_gone (RequestErr ''connection refused''))])
   \<and> handle_pages_main_go demo_env [demo_gone] Closed [] =
       (Completed,
        [HttpGet demo_gone,
         LogPageError demo_gone (UnableRequestPage demo_gone (RequestErr ''connection refused''))])"
proof -
  let ?err = "UnableRequestPage demo_gone (RequestErr ''connection refused'')"
  have g: "fst (getHTML demo_env demo_gone []) = Inl ?err"
    by (simp add: demo_getHTML)
  have n: "\<not> terminate_closed demo_env t" for t
    by (simp add: demo_not_cancelled)
  note skipped = failed_subpage_fetch_is_skipped [OF g, of "[]"]
  have 1: "handle_pages demo_env [demo_gone, demo_sub] LeftOpen [] =
        handle_pages demo_env [demo_sub] LeftOpen
          [PollTerminate False, HttpGet demo_gone, LogPageError demo_gone ?err]"
    using skipped [of "[demo_sub]" LeftOpen] n by simp
  have 2: "handle_pages_main_go demo_env [demo_gone, demo_sub] Closed [] =
        handle_pages_main_go demo_env [demo_sub] Closed
          [HttpGet demo_gone, LogPageError demo_gone ?err]"
    using skipped [of "[demo_sub]" Closed] by simp
  have 3: "handle_pages demo_env [demo_gone] LeftOpen [] =
       (Leave Block, [PollTerminate False, HttpGet demo_gone, LogPageError demo_gone ?err])"
    and 4: "handle_pages_main_go demo_env [demo_gone] Closed [] =
       (Completed, [HttpGet demo_gone, LogPageError demo_gone ?err])"
    using skipped [of "[]" LeftOpen] n by simp_all
  have 5: "handle_pages demo_env [demo_sub] LeftOpen t =
       (Leave Block,
        t @ [PollTerminate False, HttpGet demo_sub, PollTerminate False,
         PrintDownloading demo_file, HttpGet demo_file, OsStat ''/out/vol1/tileSG-5'',
         OsMkdirAll ''/out/vol1/tileSG-5'', OsCreate ''/out/vol1/tileSG-5/image1.tif'',
         IoCopy ''/out/vol1/tileSG-5/image1.tif'' 3])" for t
    by (simp add: demo_getHTML demo_getTifUrls demo_download demo_not_cancelled)
  have 6: "handle_pages_main_go demo_env [demo_sub] Closed t =
       (Completed,
        t @ [HttpGet demo_sub,
         PrintDownloading demo_file, HttpGet demo_file, OsStat ''/out/vol1/tileSG-5'',
         OsMkdirAll ''/out/vol1/tileSG-5'', OsCreate ''/out/vol1/tileSG-5/image1.tif'',
         IoCopy ''/out/vol1/tileSG-5/image1.tif'' 3])" for t
    by (simp add: demo_getHTML demo_getTifUrls demo_download)
  have 7: "take 5 (snd (handle_pages demo_env [demo_gone, demo_sub] LeftOpen [])) =
       [PollTerminate False, HttpGet demo_gone, LogPageError demo_gone ?err,
        PollTerminate False, HttpGet demo_sub]"
    and 8: "take 3 (snd (handle_pages_main_go demo_env [demo_gone, demo_sub] Closed [])) =
       [HttpGet demo_gone, LogPageError demo_gone ?err, HttpGet demo_sub]"
    using skipped [where rest = "[]" and nextUrl = demo_sub and fin = LeftOpen]
      skipped [where rest = "[]" and nextUrl = demo_sub and fin = Closed] n
    by simp_all
  show ?thesis
    unfolding 7 8 unfolding 1 2 3 4 5 6 using g n by simp
qed

text \<open>
  Claim C1 (the code does otherwise). When the request of a file fails, download does
  not return an error: it calls \<^verbatim>\<open>log.Fatalf\<close>, which ends the process. The loop over the
  files is left with the process's exit and the files after this one are not attempted:
  so it is for every channel whose producer does not panic, and the channel of
  getTifUrls is one (third and last conjuncts). With a producer that panics after
  sending this file the process ends as well, by the panic.
\<close>

theorem download_exits_when_fetch_fails:
  assumes "client_Do e fileUrl = Inl err"
  shows "download e fileUrl t =
           (Exit, t @ [PrintDownloading fileUrl, HttpGet fileUrl, LogFatal fileUrl (RequestErr err)])
         \<and> (\<not> terminate_closed e t \<longrightarrow>
              handle_files e (fileUrl # rest) fin t =
                (if struck rest fin then (Leave Panic, t)
                 else (Leave Exit, t @ [PollTerminate False, PrintDownloading fileUrl,
                                        HttpGet fileUrl, LogFatal fileUrl (RequestErr err)])))
         \<and> (\<not> terminate_closed e t \<longrightarrow>
              handle_files e (fileUrl # rest) (snd (getTifUrls pageURL page)) t =
                (Leave Exit, t @ [PollTerminate False, PrintDownloading fileUrl, HttpGet fileUrl,
                                  LogFatal fileUrl (RequestErr err)]))
         \<and> handle_files_main_go e (fileUrl # rest) fin t =
                (if struck rest fin then (Leave Panic, t)
                 else (Leave Exit, t @ [PrintDownloading fileUrl, HttpGet fileUrl,
                                        LogFatal fileUrl (RequestErr err)]))
         \<and> handle_files_main_go e (fileUrl # rest) (snd (getTifUrls_main_go pageURL page)) t =
                (Leave Exit, t @ [PrintDownloading fileUrl, HttpGet fileUrl,
                                  LogFatal fileUrl (RequestErr err)])"
proof -
  have d: "download e fileUrl t' =
      (Exit, t' @ [PrintDownloading fileUrl, HttpGet fileUrl, LogFatal fileUrl (RequestErr err)])" for t'
    using assms by (simp add: download_def request_def)
  show ?thesis
    by (simp add: d getTifUrls_ends)
qed

text \<open>
  On the small archive: the tile \<^verbatim>\<open>image0.tif\<close> is refused; the process exits and the tile
  \<^verbatim>\<open>image1.tif\<close>, next in the channel, is never requested.
\<close>

theorem download_exits_when_fetch_fails_witness:
  "client_Do demo_env demo_lost = Inl ''connection refused''
   \<and> \<not> terminate_closed demo_env []
   \<and> handle_files demo_env [demo_lost, demo_file] LeftOpen [] =
       (Leave Exit, [PollTerminate False, PrintDownloading demo_lost, HttpGet demo_lost,
                     LogFatal demo_lost (RequestErr ''connection refused'')])
   \<and> handle_files_main_go demo_env [demo_lost, demo_file] Closed [] =
       (Leave Exit, [PrintDownloading demo_lost, HttpGet demo_lost,
                     LogFatal demo_lost (RequestErr ''connection refused'')])"
proof -
  have c: "client_Do demo_env demo_lost = Inl ''connection refused''"
    by (simp add: demo_env_def demo_lost_def demo_root_def)
  have n: "\<not> terminate_closed demo_env []"
    by (simp add: demo_not_cancelled)
  show ?thesis
    using download_exits_when_fetch_fails [OF c, of "[]" "[demo_file]"] c n
    by simp
qed

text \<open>
  The errors that download does return are handled as the claim says: the loop logs them
  and goes on with the next file.
\<close>

lemma returned_download_error_is_skipped:
  assumes "\<not> terminate_closed e t" and "\<not> struck rest fin"
    and "download e fileUrl (t @ [PollTerminate False]) = (Return (n, Some err), t2)"
  shows "handle_files e (fileUrl # rest) fin t =
           handle_files e rest fin (t2 @ [LogDownloadError fileUrl err])"
  using assms by simp

text \<open>
  Claim C6 (the code does otherwise for a URL that does not parse). handle discards the
  error of \<^verbatim>\<open>url.Parse\<close> and dereferences the nil pointer: the goroutine panics, which
  ends the process with every other job. Nothing is reported for the job.
\<close>

theorem handle_panics_when_url_does_not_parse:
  assumes "url_Parse e (Url params) = None"
  shows "handle e params t = (Panic, t) \<and> handle_main_go e params t = (Panic, t)
         \<and> run_job e params t = (Panic, t)"
  using assms by (simp add: handle_def handle_main_go_def run_job_def)

text \<open>On the small archive: a job whose URL has no scheme.\<close>

theorem handle_panics_when_url_does_not_parse_witness:
  "url_Parse demo_env (Url demo_bad_job) = None
   \<and> handle demo_env demo_bad_job [] = (Panic, [])
   \<and> handle_main_go demo_env demo_bad_job [] = (Panic, [])
   \<and> run_job demo_env demo_bad_job [] = (Panic, [])"
proof -
  have p: "url_Parse demo_env (Url demo_bad_job) = None"
    by (simp add: demo_env_def demo_bad_job_def)
  show ?thesis
    using handle_panics_when_url_does_not_parse [OF p, of "[]"] p by simp
qed

text \<open>
  The other half of the claim holds: when the root page cannot be fetched, handle
  returns the error and the goroutine of the job prints it and ends.
\<close>

lemma handle_root_fetch_fails:
  assumes "url_Parse e (Url params) = Some baseURL" and "fst (getHTML e baseURL t0) = Inl err"
  shows "handle e params t = (Return (Some (GetHtmlErr err)), t @ [HttpGet baseURL])"
    and "run_job e params t =
           (Return (), t @ [HttpGet baseURL, PrintHandlingFailed (Name params) (GetHtmlErr err)])"
proof -
  have g: "getHTML e baseURL t' = (Inl err, t' @ [HttpGet baseURL])" for t'
    using getHTML_eq [of e baseURL t' t0] assms by simp
  show "handle e params t = (Return (Some (GetHtmlErr err)), t @ [HttpGet baseURL])"
    using assms by (simp add: handle_def g)
  then show "run_job e params t =
           (Return (), t @ [HttpGet baseURL, PrintHandlingFailed (Name params) (GetHtmlErr err)])"
    by (simp add: run_job_def)
qed


section \<open>Polls before fetches and downloads\<close>

lemma quiet_calm: "quiet ev \<Longrightarrow> calm ev"
  by (cases ev) (auto simp: calm_def)

lemma quiet_not_poll: "quiet ev \<Longrightarrow> \<not> is_poll ev"
  by (cases ev) auto

lemma may_follow_quiet: "quiet ev \<Longrightarrow> may_follow prev ev = calm prev"
  by (cases ev) auto

lemma may_follow_poll: "is_poll ev \<Longrightarrow> may_follow prev ev = calm prev"
  by (cases ev) auto

lemma successively_quiet:
  "\<forall>ev \<in> set evs. quiet ev \<Longrightarrow> calm prev \<Longrightarrow> successively may_follow (prev # evs)"
  by (induction evs arbitrary: prev) (auto simp: may_follow_quiet quiet_calm)

lemma successively_then_poll:
  assumes "successively may_follow A" and "successively may_follow B"
    and "A \<noteq> [] \<Longrightarrow> calm (last A)" and "B \<noteq> [] \<Longrightarrow> is_poll (hd B)"
  shows "successively may_follow (A @ B)"
  using assms by (cases "B = []") (auto simp: successively_append_iff may_follow_poll)

lemma successively_snoc_quiet:
  assumes "successively may_follow A" and "\<forall>ev \<in> set A. calm ev" and "quiet ev"
  shows "successively may_follow (A @ [ev])"
  using assms by (cases "A = []") (auto simp: successively_append_iff may_follow_quiet)

lemma successively_calm_then_poll:
  assumes "successively may_follow A" and "successively may_follow B"
    and "\<forall>ev \<in> set A. calm ev" and "B \<noteq> [] \<longrightarrow> is_poll (hd B)"
  shows "successively may_follow (A @ B)"
  using assms by (intro successively_then_poll) auto

lemma polls_true_Cons:
  "polls_true e t (ev # evs) =
     ((\<forall>c. ev = PollTerminate c \<longrightarrow> c = terminate_closed e t) \<and> polls_true e (t @ [ev]) evs)"
  by (cases ev) auto

lemma polls_true_append:
  "polls_true e t (A @ B) = (polls_true e t A \<and> polls_true e (t @ A) B)"
  by (induction A arbitrary: t) (auto simp: polls_true_Cons)

lemma polls_true_no_poll: "\<forall>ev \<in> set A. \<not> is_poll ev \<Longrightarrow> polls_true e t A"
  by (induction A arbitrary: t) (auto simp: polls_true_Cons)

lemma polls_true_nth:
  "polls_true e t evs \<Longrightarrow> i < length evs \<Longrightarrow> evs ! i = PollTerminate c \<Longrightarrow>
     c = terminate_closed e (t @ take i evs)"
proof (induction evs arbitrary: t i)
  case Nil
  then show ?case by simp
next
  case (Cons ev evs)
  show ?case
  proof (cases i)
    case 0
    with Cons.prems show ?thesis
      by (simp add: polls_true_Cons)
  next
    case (Suc j)
    with Cons.prems Cons.IH [of "t @ [ev]" j] show ?thesis
      by (simp add: polls_true_Cons)
  qed
qed

text \<open>
  In a sequence of steps in the order of \<open>may_follow\<close> whose polls are true, the step
  before a GET of a sub-page or before the announcement of a download is a poll that
  found \<^verbatim>\<open>terminate\<close> open, at a time when the interrupt had not arrived.
\<close>

lemma guarded_starts:
  assumes "successively may_follow evs" and "polls_true e t evs" and "Suc i < length evs"
    and "evs ! Suc i = PrintDownloading u \<or> (evs ! Suc i = HttpGet u \<and> evs ! i \<noteq> PrintDownloading u)"
  shows "evs ! i = PollTerminate False \<and> \<not> terminate_closed e (t @ take i evs)"
proof -
  from successively_nth [OF assms(1,3)] assms(4) have p: "evs ! i = PollTerminate False"
    by auto
  from polls_true_nth [OF assms(2) _ p] assms(3) show ?thesis
    using p by simp
qed

lemma calm_no_cancel: "\<forall>ev \<in> set D. calm ev \<Longrightarrow> PollTerminate True \<notin> set D"
  by (auto simp: calm_def)

text \<open>One iteration of the loop over the files that finds \<^verbatim>\<open>terminate\<close> open.\<close>

lemma download_iteration:
  assumes "download e u (t @ [PollTerminate False]) = (r, t2)" and "\<not> terminate_closed e t"
  shows "\<exists>D. t2 = t @ D \<and> successively may_follow D \<and> (\<forall>ev \<in> set D. calm ev)
           \<and> D \<noteq> [] \<and> is_poll (hd D) \<and> polls_true e t D"
proof -
  obtain devs where d: "snd (download e u (t @ [PollTerminate False])) =
        (t @ [PollTerminate False]) @ PrintDownloading u # HttpGet u # devs"
      and q: "\<forall>ev \<in> set devs. quiet ev"
    using download_events by blast
  let ?D = "PollTerminate False # PrintDownloading u # HttpGet u # devs"
  have "t2 = t @ ?D"
    using d assms by simp
  moreover have "successively may_follow ?D"
    using successively_quiet [OF q, of "HttpGet u"] by (simp add: calm_def)
  moreover have "\<forall>ev \<in> set ?D. calm ev"
    using q by (auto simp: calm_def quiet_calm)
  moreover have "polls_true e t ?D"
  proof -
    have "\<forall>ev \<in> set (PrintDownloading u # HttpGet u # devs). \<not> is_poll ev"
      using q by (auto dest: quiet_not_poll)
    from polls_true_no_poll [OF this, of e "t @ [PollTerminate False]"] assms(2) show ?thesis
      by simp
  qed
  ultimately show ?thesis
    by (intro exI [of _ ?D]) simp
qed

lemma handle_files_trace:
  "\<exists>evs. snd (handle_files e us fin t) = t @ evs
     \<and> successively may_follow evs
     \<and> (evs \<noteq> [] \<longrightarrow> is_poll (hd evs))
     \<and> (fst (handle_files e us fin t) = Completed \<longrightarrow> (\<forall>ev \<in> set evs. calm ev))
     \<and> (PollTerminate True \<in> set evs \<longrightarrow> fst (handle_files e us fin t) = Leave (Return None))
     \<and> polls_true e t evs"
proof (induction us arbitrary: t)
  case Nil
  show ?case by simp
next
  case (Cons u us)
  show ?case
  proof (cases "struck us fin")
    case True
    then show ?thesis
      by simp
  next
    case ns: False
    show ?thesis
    proof (cases "terminate_closed e t")
      case True
      with ns show ?thesis
        by (simp add: calm_def)
    next
      case False
      obtain r t2 where rt: "download e u (t @ [PollTerminate False]) = (r, t2)"
        by (cases "download e u (t @ [PollTerminate False])")
      from download_iteration [OF rt False] obtain D where t2: "t2 = t @ D"
        and sD: "successively may_follow D" and cD: "\<forall>ev \<in> set D. calm ev"
        and D: "D \<noteq> []" "is_poll (hd D)" and pD: "polls_true e t D"
        by blast
      note nD = calm_no_cancel [OF cD]
      have stop: ?thesis if "handle_files e (u # us) fin t = (Leave r', t2)" "r' \<noteq> Return None" for r'
        using that t2 sD nD D pD by (intro exI [of _ D]) auto
      have continue: ?thesis
        if eq: "handle_files e (u # us) fin t = handle_files e us fin (t @ D')"
          and sD': "successively may_follow D'" and cD': "\<forall>ev \<in> set D'. calm ev"
          and D': "D' \<noteq> []" "is_poll (hd D')" and pD': "polls_true e t D'" for D'
      proof -
        from Cons.IH [of "t @ D'"] obtain evs where
          1: "snd (handle_files e us fin (t @ D')) = (t @ D') @ evs" and
          2: "successively may_follow evs" and
          3: "evs \<noteq> [] \<longrightarrow> is_poll (hd evs)" and
          4: "fst (handle_files e us fin (t @ D')) = Completed \<longrightarrow> (\<forall>ev \<in> set evs. calm ev)" and
          5: "PollTerminate True \<in> set evs \<longrightarrow> fst (handle_files e us fin (t @ D')) = Leave (Return None)" and
          6: "polls_true e (t @ D') evs"
          by blast
        have "successively may_follow (D' @ evs)"
          using sD' 2 cD' 3 by (rule successively_calm_then_poll)
        moreover have "polls_true e t (D' @ evs)"
          using pD' 6 by (simp add: polls_true_append)
        ultimately show ?thesis
          unfolding eq using 1 3 4 5 cD' calm_no_cancel [OF cD'] D'
          by (intro exI [of _ "D' @ evs"]) auto
      qed
      show ?thesis
      proof (cases r)
        case (Return v)
        obtain n err where v: "v = (n, err)" by (cases v)
        show ?thesis
        proof (cases err)
          case None
          have "handle_files e (u # us) fin t = handle_files e us fin (t @ D)"
            using ns False rt Return v None t2 by simp
          then show ?thesis
            using sD cD D pD by (intro continue [of D]) auto
        next
          case (Some er)
          have "handle_files e (u # us) fin t = handle_files e us fin (t @ (D @ [LogDownloadError u er]))"
            using ns False rt Return v Some t2 by simp
          moreover have "successively may_follow (D @ [LogDownloadError u er])"
            using sD cD by (rule successively_snoc_quiet) simp
          moreover have "\<forall>ev \<in> set (D @ [LogDownloadError u er]). calm ev"
            using cD by (auto simp: calm_def)
          moreover have "polls_true e t (D @ [LogDownloadError u er])"
            using pD by (simp add: polls_true_append)
          ultimately show ?thesis
            using D by (intro continue [of "D @ [LogDownloadError u er]"]) auto
        qed
      next
        case Panic
        then show ?thesis
          using ns False rt by (intro stop [of Panic]) auto
      next
        case Exit
        then show ?thesis
          using ns False rt by (intro stop [of Exit]) auto
      next
        case Block
        then show ?thesis
          using ns False rt by (intro stop [of Block]) auto
      qed
    qed
  qed
qed

lemma handle_pages_trace:
  "\<exists>evs. snd (handle_pages e us fin t) = t @ evs
     \<and> successively may_follow evs
     \<and> (evs \<noteq> [] \<longrightarrow> is_poll (hd evs))
     \<and> (fst (handle_pages e us fin t) = Completed \<longrightarrow> (\<forall>ev \<in> set evs. calm ev))
     \<and> (PollTerminate True \<in> set evs \<longrightarrow> fst (handle_pages e us fin t) = Leave (Return None))
     \<and> polls_true e t evs"
proof (induction us arbitrary: t)
  case Nil
  show ?case by simp
next
  case (Cons u us)
  show ?case
  proof (cases "struck us fin")
    case True
    then show ?thesis
      by simp
  next
    case ns: False
    show ?thesis
    proof (cases "terminate_closed e t")
      case True
      with ns show ?thesis
        by (simp add: calm_def)
    next
      case False
      let ?G = "[PollTerminate False, HttpGet u]"
      obtain r where g: "getHTML e u (t @ [PollTerminate False]) = (r, t @ ?G)"
        using snd_getHTML [of e u "t @ [PollTerminate False]"]
        by (cases "getHTML e u (t @ [PollTerminate False])") simp
      have sG: "successively may_follow ?G" and cG: "\<forall>ev \<in> set ?G. calm ev"
        and pG: "polls_true e t ?G"
        using False by (simp_all add: calm_def)
      have continue: ?thesis
        if eq: "handle_pages e (u # us) fin t = handle_pages e us fin (t @ D')"
          and sD': "successively may_follow D'" and cD': "\<forall>ev \<in> set D'. calm ev"
          and D': "D' \<noteq> []" "is_poll (hd D')" and pD': "polls_true e t D'" for D'
      proof -
        from Cons.IH [of "t @ D'"] obtain evs where
          1: "snd (handle_pages e us fin (t @ D')) = (t @ D') @ evs" and
          2: "successively may_follow evs" and
          3: "evs \<noteq> [] \<longrightarrow> is_poll (hd evs)" and
          4: "fst (handle_pages e us fin (t @ D')) = Completed \<longrightarrow> (\<forall>ev \<in> set evs. calm ev)" and
          5: "PollTerminate True \<in> set evs \<longrightarrow> fst (handle_pages e us fin (t @ D')) = Leave (Return None)" and
          6: "polls_true e (t @ D') evs"
          by blast
        have "successively may_follow (D' @ evs)"
          using sD' 2 cD' 3 by (rule successively_calm_then_poll)
        moreover have "polls_true e t (D' @ evs)"
          using pD' 6 by (simp add: polls_true_append)
        ultimately show ?thesis
          unfolding eq using 1 3 4 5 cD' calm_no_cancel [OF cD'] D'
          by (intro exI [of _ "D' @ evs"]) auto
      qed
      show ?thesis
      proof (cases r)
        case (Inl err)
        have "handle_pages e (u # us) fin t = handle_pages e us fin (t @ (?G @ [LogPageError u err]))"
          using ns False g Inl by simp
        moreover have "successively may_follow (?G @ [LogPageError u err])"
          using sG cG by (rule successively_snoc_quiet) simp
        moreover have "\<forall>ev \<in> set (?G @ [LogPageError u err]). calm ev"
          by (simp add: calm_def)
        moreover have "polls_true e t (?G @ [LogPageError u err])"
          using pG by (simp add: polls_true_append)
        ultimately show ?thesis
          by (intro continue [of "?G @ [LogPageError u err]"]) auto
      next
        case (Inr html)
        obtain fileUrls fin' where tif: "getTifUrls u html = (fileUrls, fin')"
          by (cases "getTifUrls u html")
        from handle_files_trace [of e fileUrls fin' "t @ ?G"] obtain evs where
          1: "snd (handle_files e fileUrls fin' (t @ ?G)) = (t @ ?G) @ evs" and
          2: "successively may_follow evs" and
          3: "evs \<noteq> [] \<longrightarrow> is_poll (hd evs)" and
          4: "fst (handle_files e fileUrls fin' (t @ ?G)) = Completed \<longrightarrow> (\<forall>ev \<in> set evs. calm ev)" and
          5: "PollTerminate True \<in> set evs \<longrightarrow> fst (handle_files e fileUrls fin' (t @ ?G)) = Leave (Return None)" and
          6: "polls_true e (t @ ?G) evs"
          by blast
        obtain l t3 where l: "handle_files e fileUrls fin' (t @ ?G) = (l, t3)"
          by (cases "handle_files e fileUrls fin' (t @ ?G)")
        with 1 have t3: "t3 = t @ (?G @ evs)"
          by simp
        have sD: "successively may_follow (?G @ evs)"
          using sG 2 cG 3 by (rule successively_calm_then_poll)
        have pD: "polls_true e t (?G @ evs)"
          using pG 6 by (simp add: polls_true_append)
        show ?thesis
        proof (cases l)
          case Completed
          have "handle_pages e (u # us) fin t = handle_pages e us fin (t @ (?G @ evs))"
            using ns False g Inr tif l Completed t3 by simp
          moreover have "\<forall>ev \<in> set (?G @ evs). calm ev"
            using 4 l Completed by (auto simp: calm_def)
          ultimately show ?thesis
            using sD pD by (intro continue [of "?G @ evs"]) auto
        next
          case (Leave r')
          have "handle_pages e (u # us) fin t = (Leave r', t @ (?G @ evs))"
            using ns False g Inr tif l Leave t3 by simp
          then show ?thesis
            using sD pD 5 l Leave by (intro exI [of _ "?G @ evs"]) auto
        qed
      qed
    qed
  qed
qed

lemma handle_trace:
  "\<exists>evs. snd (handle e params t) = t @ evs
     \<and> successively may_follow evs
     \<and> (PollTerminate True \<in> set evs \<longrightarrow> fst (handle e params t) = Return None)
     \<and> polls_true e t evs"
proof (cases "url_Parse e (Url params)")
  case None
  then show ?thesis
    by (simp add: handle_def)
next
  case (Some baseURL)
  obtain r where g: "getHTML e baseURL t = (r, t @ [HttpGet baseURL])"
    using snd_getHTML [of e baseURL t] by (cases "getHTML e baseURL t") simp
  show ?thesis
  proof (cases r)
    case (Inl err)
    then show ?thesis
      using Some g by (simp add: handle_def)
  next
    case (Inr html)
    obtain pageUrls fin where p: "parseURLs e baseURL html (PageRanges params) = (pageUrls, fin)"
      by (cases "parseURLs e baseURL html (PageRanges params)")
    from handle_pages_trace [of e pageUrls fin "t @ [HttpGet baseURL]"] obtain evs where
      1: "snd (handle_pages e pageUrls fin (t @ [HttpGet baseURL])) = (t @ [HttpGet baseURL]) @ evs" and
      2: "successively may_follow evs" and
      3: "evs \<noteq> [] \<longrightarrow> is_poll (hd evs)" and
      5: "PollTerminate True \<in> set evs \<longrightarrow>
            fst (handle_pages e pageUrls fin (t @ [HttpGet baseURL])) = Leave (Return None)" and
      6: "polls_true e (t @ [HttpGet baseURL]) evs"
      by blast
    obtain l t2 where l: "handle_pages e pageUrls fin (t @ [HttpGet baseURL]) = (l, t2)"
      by (cases "handle_pages e pageUrls fin (t @ [HttpGet baseURL])")
    with 1 have t2: "t2 = t @ ([HttpGet baseURL] @ evs)"
      by simp
    have s: "successively may_follow ([HttpGet baseURL] @ evs)"
      using 2 3 by (intro successively_calm_then_poll) (auto simp: calm_def)
    have pt: "polls_true e t ([HttpGet baseURL] @ evs)"
      using 6 by simp
    have h: "handle e params t = (case l of Completed \<Rightarrow> Return None | Leave r \<Rightarrow> r, t2)"
      using Some g Inr p l by (simp add: handle_def split: loop.splits)
    show ?thesis
      unfolding h using s pt 5 l t2
      by (intro exI [of _ "[HttpGet baseURL] @ evs"]) (auto split: loop.splits)
  qed
qed

lemma download_no_poll: "\<not> is_poll ev" if "ev \<in> set (drop (length t) (snd (download e u t)))"
proof -
  obtain evs where "snd (download e u t) = t @ PrintDownloading u # HttpGet u # evs"
      and "\<forall>ev \<in> set evs. quiet ev"
    using download_events by blast
  with that show ?thesis
    by (auto dest: quiet_not_poll)
qed

subsection \<open>The end of the process\<close>

lemma cut_length:
  "i < length (fst (cut e T tr)) \<longleftrightarrow> i < length tr \<and> elapsed e (take (Suc i) tr) \<le> T"
proof (induction tr arbitrary: T i)
  case Nil
  show ?case by simp
next
  case (Cons ev evs)
  show ?case
  proof (cases "duration e ev \<le> T")
    case True
    obtain steps c where c: "cut e (T - duration e ev) evs = (steps, c)"
      by (cases "cut e (T - duration e ev) evs")
    show ?thesis
    proof (cases i)
      case 0
      with True c show ?thesis by simp
    next
      case (Suc i')
      from Cons.IH [of i' "T - duration e ev"] c True Suc show ?thesis
        by auto
    qed
  next
    case False
    then show ?thesis
      by simp
  qed
qed

lemma cut_steps: "fst (cut e T tr) = take (length (fst (cut e T tr))) tr"
proof (induction tr arbitrary: T)
  case Nil
  show ?case by simp
next
  case (Cons ev evs)
  from Cons [of "T - duration e ev"] show ?case
    by (auto split: prod.splits)
qed

lemma cut_step:
  "snd (cut e T tr) =
     (if length (fst (cut e T tr)) < length tr then Some (tr ! length (fst (cut e T tr))) else None)"
proof (induction tr arbitrary: T)
  case Nil
  show ?case by simp
next
  case (Cons ev evs)
  from Cons [of "T - duration e ev"] show ?case
    by (auto split: prod.splits)
qed

lemma main_ended:
  assumes "cancel_at e = Some s"
  shows "ended (main e) = Some (how, T) \<Longrightarrow> T \<le> s + 5000"
    and "died_at e = None \<Longrightarrow> (\<forall>d. done_at e = Some d \<longrightarrow> s \<le> d) \<Longrightarrow>
           ended (main e) = Some (Terminated, s + 5000)"
  using assms
  by (auto simp: main_def Let_def split: option.splits if_splits prod.splits)

lemma main_jobs:
  "ended (main e) = Some (how, T) \<Longrightarrow> jobs (main e) = map (\<lambda>j. cut e T (snd j)) (run e)"
  by (simp add: main_def Let_def)

subsection \<open>The job and the process on the small archive\<close>

lemma demo_pages: "Pages (config demo_env) = [demo_job]"
  by (simp add: demo_env_def)

lemma demo_handle_cancelled:
  "handle demo_env_cancelled demo_job [] =
     (Return None,
      [HttpGet demo_root, PollTerminate False, HttpGet demo_sub, PollTerminate True,
       PrintDownloadingTerminated])"
  by (simp add: demo_env_cancelled_def handle_def demo_parse demo_getHTML demo_parseURLs
      demo_getTifUrls demo_duration)

lemma demo_run_cancelled:
  "run demo_env_cancelled =
     [(Return (),
       [HttpGet demo_root, PollTerminate False, HttpGet demo_sub, PollTerminate True,
        PrintDownloadingTerminated])]"
  using demo_handle_cancelled
  by (simp add: run_def run_job_def demo_pages demo_env_cancelled_def)

lemma demo_main_cancelled:
  "main demo_env_cancelled =
     \<lparr>ended = Some (Terminated, 5300),
      jobs = [([HttpGet demo_root, PollTerminate False, HttpGet demo_sub, PollTerminate True,
                PrintDownloadingTerminated], None)]\<rparr>"
proof -
  have "done_at demo_env_cancelled = Some 400" "died_at demo_env_cancelled = None"
    by (simp_all add: done_at_def died_at_def demo_run_cancelled)
       (simp_all add: demo_env_cancelled_def demo_duration)
  moreover have "cancel_at demo_env_cancelled = Some 300"
    by (simp add: demo_env_cancelled_def)
  moreover have "cut demo_env_cancelled 5300
      [HttpGet demo_root, PollTerminate False, HttpGet demo_sub, PollTerminate True,
       PrintDownloadingTerminated] =
      ([HttpGet demo_root, PollTerminate False, HttpGet demo_sub, PollTerminate True,
        PrintDownloadingTerminated], None)"
    by (simp add: demo_env_cancelled_def demo_duration)
  ultimately show ?thesis
    by (simp add: main_def demo_run_cancelled)
qed

lemma demo_run_interrupted:
  assumes "400 < s"
  shows "run (demo_env\<lparr>cancel_at := Some s\<rparr>) =
     [(Block,
       [HttpGet demo_root, PollTerminate False, HttpGet demo_sub, PollTerminate False,
        PrintDownloading demo_file, HttpGet demo_file, OsStat ''/out/vol1/tileSG-5'',
        OsMkdirAll ''/out/vol1/tileSG-5'', OsCreate ''/out/vol1/tileSG-5/image1.tif'',
        IoCopy ''/out/vol1/tileSG-5/image1.tif'' 3])]"
  using demo_handle_interrupted [OF assms] demo_handle
  by (simp add: run_def run_job_def demo_pages)

lemma demo_main_early:
  "main demo_env_early =
     \<lparr>ended = Some (Terminated, 6000),
      jobs = [([HttpGet demo_root, PollTerminate False, HttpGet demo_sub, PollTerminate False,
                PrintDownloading demo_file, HttpGet demo_file, OsStat ''/out/vol1/tileSG-5'',
                OsMkdirAll ''/out/vol1/tileSG-5'', OsCreate ''/out/vol1/tileSG-5/image1.tif''],
               Some (IoCopy ''/out/vol1/tileSG-5/image1.tif'' 3))]\<rparr>"
proof -
  note r = demo_run_interrupted [of 1000, simplified, folded demo_env_early_def]
  have "done_at demo_env_early = None" "died_at demo_env_early = None"
    by (simp_all add: done_at_def died_at_def r)
  moreover have "cancel_at demo_env_early = Some 1000"
    by (simp add: demo_env_early_def)
  moreover have "cut demo_env_early 6000
      [HttpGet demo_root, PollTerminate False, HttpGet demo_sub, PollTerminate False,
       PrintDownloading demo_file, HttpGet demo_file, OsStat ''/out/vol1/tileSG-5'',
       OsMkdirAll ''/out/vol1/tileSG-5'', OsCreate ''/out/vol1/tileSG-5/image1.tif'',
       IoCopy ''/out/vol1/tileSG-5/image1.tif'' 3] =
      ([HttpGet demo_root, PollTerminate False, HttpGet demo_sub, PollTerminate False,
        PrintDownloading demo_file, HttpGet demo_file, OsStat ''/out/vol1/tileSG-5'',
        OsMkdirAll ''/out/vol1/tileSG-5'', OsCreate ''/out/vol1/tileSG-5/image1.tif''],
       Some (IoCopy ''/out/vol1/tileSG-5/image1.tif'' 3))"
    by (simp add: demo_env_early_def demo_duration)
  ultimately show ?thesis
    by (simp add: main_def r)
qed

lemma demo_main_late:
  "main demo_env_late =
     \<lparr>ended = Some (Terminated, 14000),
      jobs = [([HttpGet demo_root, PollTerminate False, HttpGet demo_sub, PollTerminate False,
                PrintDownloading demo_file, HttpGet demo_file, OsStat ''/out/vol1/tileSG-5'',
                OsMkdirAll ''/out/vol1/tileSG-5'', OsCreate ''/out/vol1/tileSG-5/image1.tif'',
                IoCopy ''/out/vol1/tileSG-5/image1.tif'' 3], None)]\<rparr>"
proof -
  note r = demo_run_interrupted [of 9000, simplified, folded demo_env_late_def]
  have "done_at demo_env_late = None" "died_at demo_env_late = None"
    by (simp_all add: done_at_def died_at_def r)
  moreover have "cancel_at demo_env_late = Some 9000"
    by (simp add: demo_env_late_def)
  moreover have "cut demo_env_late 14000
      [HttpGet demo_root, PollTerminate False, HttpGet demo_sub, PollTerminate False,
       PrintDownloading demo_file, HttpGet demo_file, OsStat ''/out/vol1/tileSG-5'',
       OsMkdirAll ''/out/vol1/tileSG-5'', OsCreate ''/out/vol1/tileSG-5/image1.tif'',
       IoCopy ''/out/vol1/tileSG-5/image1.tif'' 3] =
      ([HttpGet demo_root, PollTerminate False, HttpGet demo_sub, PollTerminate False,
        PrintDownloading demo_file, HttpGet demo_file, OsStat ''/out/vol1/tileSG-5'',
        OsMkdirAll ''/out/vol1/tileSG-5'', OsCreate ''/out/vol1/tileSG-5/image1.tif'',
        IoCopy ''/out/vol1/tileSG-5/image1.tif'' 3], None)"
    by (simp add: demo_env_late_def demo_duration)
  ultimately show ?thesis
    by (simp add: main_def r)
qed

text \<open>
  Claim C7, as the code has it. In every run of handle the steps after the start form a
  sequence in which each GET of a sub-page and each announcement of a download comes
  directly after a poll that found \<^verbatim>\<open>terminate\<close> open, and a poll that found it closed is
  followed by the message only: handle then returns nil. Every poll reports the state of
  \<^verbatim>\<open>terminate\<close> at its time: closed exactly when the interrupt has arrived. So the poll
  before a fetch or a download was made before the interrupt (fifth conjunct). A closed
  \<^verbatim>\<open>terminate\<close> stays closed, both loops return at their next poll without a fetch or a
  download, and no poll happens inside a download or a fetch: the job does not interrupt
  a transfer. The process does: \<^verbatim>\<open>main\<close> returns 5 seconds after the interrupt, if the
  process has not ended before, and every job keeps the steps that have ended by then;
  the step under way is cut. So a fetch or download in progress at the interrupt
  finishes when it ends within the 5 seconds, and not otherwise.
\<close>

theorem polls_guard_every_fetch_and_download:
  "take (length t) (snd (handle e params t)) = t
   \<and> successively may_follow (drop (length t) (snd (handle e params t)))
   \<and> polls_true e t (drop (length t) (snd (handle e params t)))
   \<and> (PollTerminate True \<in> set (drop (length t) (snd (handle e params t)))
        \<longrightarrow> fst (handle e params t) = Return None)
   \<and> (Suc k < length (drop (length t) (snd (handle e params t)))
        \<and> (drop (length t) (snd (handle e params t)) ! Suc k = PrintDownloading v
            \<or> (drop (length t) (snd (handle e params t)) ! Suc k = HttpGet v
               \<and> drop (length t) (snd (handle e params t)) ! k \<noteq> PrintDownloading v))
        \<longrightarrow> drop (length t) (snd (handle e params t)) ! k = PollTerminate False
            \<and> \<not> terminate_closed e (t @ take k (drop (length t) (snd (handle e params t)))))
   \<and> (terminate_closed e t \<longrightarrow>
        terminate_closed e (t @ evs)
        \<and> (\<not> struck us fin \<longrightarrow>
             handle_pages e (u # us) fin t =
               (Leave (Return None), t @ [PollTerminate True, PrintHandleTerminated])
             \<and> handle_files e (u # us) fin t =
               (Leave (Return None), t @ [PollTerminate True, PrintDownloadingTerminated])))
   \<and> (\<forall>ev \<in> set (drop (length t) (snd (download e u t))). \<not> is_poll ev)
   \<and> drop (length t) (snd (getHTML e u t)) = [HttpGet u]
   \<and> (cancel_at e = Some s \<and> ended (main e) = Some (how, T) \<longrightarrow> T \<le> s + 5000)
   \<and> (cancel_at e = Some s \<and> died_at e = None \<and> (\<forall>d. done_at e = Some d \<longrightarrow> s \<le> d) \<longrightarrow>
        ended (main e) = Some (Terminated, s + 5000))
   \<and> (ended (main e) = Some (how, T) \<longrightarrow>
        jobs (main e) = map (\<lambda>j. cut e T (snd j)) (run e))
   \<and> (i < length (fst (cut e T tr)) \<longleftrightarrow> i < length tr \<and> elapsed e (take (Suc i) tr) \<le> T)
   \<and> fst (cut e T tr) = take (length (fst (cut e T tr))) tr
   \<and> snd (cut e T tr) =
        (if length (fst (cut e T tr)) < length tr
         then Some (tr ! length (fst (cut e T tr))) else None)"
proof -
  obtain evs' where "snd (handle e params t) = t @ evs'" "successively may_follow evs'"
      "PollTerminate True \<in> set evs' \<longrightarrow> fst (handle e params t) = Return None"
      "polls_true e t evs'"
    using handle_trace by blast
  then have h: "take (length t) (snd (handle e params t)) = t
      \<and> successively may_follow (drop (length t) (snd (handle e params t)))
      \<and> polls_true e t (drop (length t) (snd (handle e params t)))
      \<and> (PollTerminate True \<in> set (drop (length t) (snd (handle e params t)))
        \<longrightarrow> fst (handle e params t) = Return None)"
    by simp
  then have "Suc k < length (drop (length t) (snd (handle e params t)))
        \<and> (drop (length t) (snd (handle e params t)) ! Suc k = PrintDownloading v
            \<or> (drop (length t) (snd (handle e params t)) ! Suc k = HttpGet v
               \<and> drop (length t) (snd (handle e params t)) ! k \<noteq> PrintDownloading v))
        \<longrightarrow> drop (length t) (snd (handle e params t)) ! k = PollTerminate False
            \<and> \<not> terminate_closed e (t @ take k (drop (length t) (snd (handle e params t))))"
    using guarded_starts [of "drop (length t) (snd (handle e params t))" e t k v] by blast
  note h this
  moreover have "terminate_closed e t \<longrightarrow>
        terminate_closed e (t @ evs)
        \<and> (\<not> struck us fin \<longrightarrow>
             handle_pages e (u # us) fin t =
               (Leave (Return None), t @ [PollTerminate True, PrintHandleTerminated])
             \<and> handle_files e (u # us) fin t =
               (Leave (Return None), t @ [PollTerminate True, PrintDownloadingTerminated]))"
    by (simp add: terminate_closed_mono)
  moreover have "\<forall>ev \<in> set (drop (length t) (snd (download e u t))). \<not> is_poll ev"
    using download_no_poll by blast
  moreover have "drop (length t) (snd (getHTML e u t)) = [HttpGet u]"
    by (simp add: snd_getHTML)
  moreover have "cancel_at e = Some s \<and> ended (main e) = Some (how, T) \<longrightarrow> T \<le> s + 5000"
    using main_ended(1) by blast
  moreover have "cancel_at e = Some s \<and> died_at e = None \<and> (\<forall>d. done_at e = Some d \<longrightarrow> s \<le> d) \<longrightarrow>
        ended (main e) = Some (Terminated, s + 5000)"
    using main_ended(2) by blast
  moreover have "ended (main e) = Some (how, T) \<longrightarrow>
        jobs (main e) = map (\<lambda>j. cut e T (snd j)) (run e)"
    using main_jobs by blast
  moreover note cut_length [of i e T tr] cut_steps [of e T tr] cut_step [of e T tr]
  ultimately show ?thesis
    by blast
qed

text \<open>
  On the small archive, with the interrupt at 300 milliseconds, while the sub-page is
  fetched: the fetch goes on to its end, the next poll finds \<^verbatim>\<open>terminate\<close> closed, the
  tile is not downloaded and handle returns nil; the process ends at 5.3 seconds. With
  the interrupt at 9 seconds, while the tile is copied: the copy ends at 10.6 seconds,
  before the process does at 14 seconds.
\<close>

theorem polls_guard_every_fetch_and_download_witness:
  "PollTerminate True \<in> set (snd (handle demo_env_cancelled demo_job []))
   \<and> fst (handle demo_env_cancelled demo_job []) = Return None
   \<and> successively may_follow (snd (handle demo_env_cancelled demo_job []))
   \<and> polls_true demo_env_cancelled [] (snd (handle demo_env_cancelled demo_job []))
   \<and> snd (handle demo_env_cancelled demo_job []) =
       [HttpGet demo_root, PollTerminate False, HttpGet demo_sub, PollTerminate True,
        PrintDownloadingTerminated]
   \<and> snd (handle demo_env_cancelled demo_job []) ! Suc (Suc 0) = HttpGet demo_sub
   \<and> snd (handle demo_env_cancelled demo_job []) ! Suc 0 = PollTerminate False
   \<and> \<not> terminate_closed demo_env_cancelled [HttpGet demo_root]
   \<and> terminate_closed demo_env_cancelled [HttpGet demo_root, PollTerminate False, HttpGet demo_sub]
   \<and> \<not> struck [] LeftOpen
   \<and> handle_files demo_env_cancelled [demo_file] LeftOpen
        [HttpGet demo_root, PollTerminate False, HttpGet demo_sub] =
       (Leave (Return None),
        [HttpGet demo_root, PollTerminate False, HttpGet demo_sub, PollTerminate True,
         PrintDownloadingTerminated])
   \<and> cancel_at demo_env_cancelled = Some 300
   \<and> died_at demo_env_cancelled = None \<and> done_at demo_env_cancelled = Some 400
   \<and> ended (main demo_env_cancelled) = Some (Terminated, 5300)
   \<and> jobs (main demo_env_cancelled) =
       map (\<lambda>j. cut demo_env_cancelled 5300 (snd j)) (run demo_env_cancelled)
   \<and> jobs (main demo_env_cancelled) =
       [([HttpGet demo_root, PollTerminate False, HttpGet demo_sub, PollTerminate True,
          PrintDownloadingTerminated], None)]
   \<and> cancel_at demo_env_late = Some 9000
   \<and> main demo_env_late =
       \<lparr>ended = Some (Terminated, 14000),
        jobs = [([HttpGet demo_root, PollTerminate False, HttpGet demo_sub, PollTerminate False,
                  PrintDownloading demo_file, HttpGet demo_file, OsStat ''/out/vol1/tileSG-5'',
                  OsMkdirAll ''/out/vol1/tileSG-5'', OsCreate ''/out/vol1/tileSG-5/image1.tif'',
                  IoCopy ''/out/vol1/tileSG-5/image1.tif'' 3], None)]\<rparr>"
proof -
  let ?t = "[HttpGet demo_root, PollTerminate False, HttpGet demo_sub]"
  have c: "terminate_closed demo_env_cancelled ?t"
    by (simp add: demo_env_cancelled_def demo_duration)
  have m: "PollTerminate True \<in> set (snd (handle demo_env_cancelled demo_job []))"
    by (simp add: demo_handle_cancelled)
  have k: "cancel_at demo_env_cancelled = Some 300" "cancel_at demo_env_late = Some 9000"
    by (simp_all add: demo_env_cancelled_def demo_env_late_def)
  have d: "died_at demo_env_cancelled = None" "done_at demo_env_cancelled = Some 400"
    by (simp_all add: done_at_def died_at_def demo_run_cancelled)
       (simp_all add: demo_env_cancelled_def demo_duration)
  have en: "ended (main demo_env_cancelled) = Some (Terminated, 5300)"
    by (simp add: demo_main_cancelled)
  note 1 = polls_guard_every_fetch_and_download
      [where t = "[]" and e = demo_env_cancelled and params = demo_job and us = "[]"
        and fin = LeftOpen and u = demo_file and s = 300 and how = Terminated and T = 5300
        and k = "Suc 0" and v = demo_sub]
  note 2 = polls_guard_every_fetch_and_download
      [where t = ?t and e = demo_env_cancelled and params = demo_job and us = "[]"
        and fin = LeftOpen and u = demo_file and s = 300 and how = Terminated and T = 5300]
  have "jobs (main demo_env_cancelled) =
       map (\<lambda>j. cut demo_env_cancelled 5300 (snd j)) (run demo_env_cancelled)"
    using 1 en by blast
  moreover have "handle_files demo_env_cancelled [demo_file] LeftOpen ?t =
       (Leave (Return None), ?t @ [PollTerminate True, PrintDownloadingTerminated])"
    using 2 c by simp
  moreover have "successively may_follow (snd (handle demo_env_cancelled demo_job []))"
    "polls_true demo_env_cancelled [] (snd (handle demo_env_cancelled demo_job []))"
    "fst (handle demo_env_cancelled demo_job []) = Return None"
    using 1 m by simp_all
  moreover have "\<not> terminate_closed demo_env_cancelled [HttpGet demo_root]"
    using 1 by (simp add: demo_handle_cancelled)
  ultimately show ?thesis
    using c k d by (simp add: demo_handle_cancelled demo_main_cancelled demo_main_late)
qed

text \<open>
  Against the claim that a download in progress is allowed to finish: with the interrupt
  at one second the copy of the tile, begun at 0.6 seconds and under way until 10.6
  seconds, is cut when \<^verbatim>\<open>main\<close> returns at 6 seconds.
\<close>

theorem download_in_progress_is_cut_counterexample:
  "cancel_at demo_env_early = Some 1000
   \<and> elapsed demo_env_early
       [HttpGet demo_root, PollTerminate False, HttpGet demo_sub, PollTerminate False,
        PrintDownloading demo_file, HttpGet demo_file, OsStat ''/out/vol1/tileSG-5'',
        OsMkdirAll ''/out/vol1/tileSG-5'', OsCreate ''/out/vol1/tileSG-5/image1.tif''] = 600
   \<and> duration demo_env_early (IoCopy ''/out/vol1/tileSG-5/image1.tif'' 3) = 10000
   \<and> run demo_env_early =
       [(Block,
         [HttpGet demo_root, PollTerminate False, HttpGet demo_sub, PollTerminate False,
          PrintDownloading demo_file, HttpGet demo_file, OsStat ''/out/vol1/tileSG-5'',
          OsMkdirAll ''/out/vol1/tileSG-5'', OsCreate ''/out/vol1/tileSG-5/image1.tif'',
          IoCopy ''/out/vol1/tileSG-5/image1.tif'' 3])]
   \<and> main demo_env_early =
       \<lparr>ended = Some (Terminated, 6000),
        jobs = [([HttpGet demo_root, PollTerminate False, HttpGet demo_sub, PollTerminate False,
                  PrintDownloading demo_file, HttpGet demo_file, OsStat ''/out/vol1/tileSG-5'',
                  OsMkdirAll ''/out/vol1/tileSG-5'', OsCreate ''/out/vol1/tileSG-5/image1.tif''],
                 Some (IoCopy ''/out/vol1/tileSG-5/image1.tif'' 3))]\<rparr>"
proof -
  note r = demo_run_interrupted [of 1000, simplified, folded demo_env_early_def]
  show ?thesis
    unfolding demo_main_early r
    by (simp add: demo_env_early_def demo_duration)
qed


section \<open>The origin of the discovered URLs\<close>

lemma tif_sends_origin:
  "tif_sends pageURL ms = (us, p) \<Longrightarrow> u \<in> set us \<Longrightarrow>
     \<exists>m. u = pageURL\<lparr>Path := path_Join [Path pageURL, m]\<rparr>"
  by (induction ms arbitrary: us p u) (auto simp: Let_def split: prod.splits if_splits)

lemma link_sends_origin:
  "link_sends pageURL ms = (us, p) \<Longrightarrow> u \<in> set us \<Longrightarrow>
     \<exists>m. u = pageURL\<lparr>Path := path_Join [Path pageURL, m] @ ''/''\<rparr>"
  by (induction ms arbitrary: us p u) (auto simp: Let_def split: prod.splits if_splits)

lemma tpl_sends_origin:
  "tpl_sends e pageURL body tpls = (us, p) \<Longrightarrow> u \<in> set us \<Longrightarrow>
     \<exists>m. u = pageURL\<lparr>Path := path_Join [Path pageURL, m] @ ''/''\<rparr>"
proof (induction tpls arbitrary: us p u)
  case Nil
  then show ?case by simp
next
  case (Cons tpl tpls)
  then show ?case
    by (auto simp: Let_def split: option.splits prod.splits bool.splits
        dest: link_sends_origin)
qed

lemma parseURLs_origin:
  assumes "u \<in> set (fst (parseURLs e pageURL body ranges))"
  shows "\<exists>m. u = pageURL\<lparr>Path := path_Join [Path pageURL, m] @ ''/''\<rparr>"
proof -
  obtain us p where s: "tpl_sends e pageURL body (buildLinkTemplates ranges) = (us, p)"
    by (cases "tpl_sends e pageURL body (buildLinkTemplates ranges)")
  with assms have "u \<in> set us"
    by (cases p) (simp_all add: parseURLs_def)
  with s show ?thesis
    by (rule tpl_sends_origin)
qed

lemma getTifUrls_origin:
  assumes "u \<in> set (fst (getTifUrls pageURL page))"
  shows "\<exists>m. u = pageURL\<lparr>Path := path_Join [Path pageURL, m]\<rparr>"
proof -
  obtain us p where s: "tif_sends pageURL (FindAllStringSubmatch tif_re page) = (us, p)"
    by (cases "tif_sends pageURL (FindAllStringSubmatch tif_re page)")
  with assms have "u \<in> set us"
    by (cases p) (simp_all add: getTifUrls_def)
  with s show ?thesis
    by (rule tif_sends_origin)
qed

lemma fst_main_go:
  "fst (parseURLs_main_go e pageURL body ranges) = fst (parseURLs e pageURL body ranges)"
  "fst (getTifUrls_main_go pageURL page) = fst (getTifUrls pageURL page)"
  by (simp_all add: parseURLs_def parseURLs_main_go_def getTifUrls_def getTifUrls_main_go_def
      split: prod.splits bool.splits)

text \<open>
  Claim C8. Every sub-page URL that parseURLs sends is the root URL with only its path
  replaced, by the join of the root's path and a matched segment, followed by a slash;
  every file URL that getTifUrls sends for such a sub-page is the sub-page's URL with
  only its path replaced by the join of its path and a matched segment. So both have the
  scheme and the host of the root URL. The channels of \<^verbatim>\<open>main.go\<close> carry the same URLs.
\<close>

theorem discovered_urls_keep_scheme_and_host:
  "(\<forall>pageUrl \<in> set (fst (parseURLs e root body ranges)).
      Scheme pageUrl = Scheme root \<and> Host pageUrl = Host root
      \<and> (\<exists>m. pageUrl = root\<lparr>Path := path_Join [Path root, m] @ ''/''\<rparr>)
      \<and> (\<forall>fileUrl \<in> set (fst (getTifUrls pageUrl html)).
            Scheme fileUrl = Scheme root \<and> Host fileUrl = Host root
            \<and> (\<exists>m. fileUrl = pageUrl\<lparr>Path := path_Join [Path pageUrl, m]\<rparr>)))
   \<and> fst (parseURLs_main_go e root body ranges) = fst (parseURLs e root body ranges)
   \<and> fst (getTifUrls_main_go anyUrl html) = fst (getTifUrls anyUrl html)"
proof -
  have "Scheme pageUrl = Scheme root \<and> Host pageUrl = Host root
      \<and> (\<exists>m. pageUrl = root\<lparr>Path := path_Join [Path root, m] @ ''/''\<rparr>)
      \<and> (\<forall>fileUrl \<in> set (fst (getTifUrls pageUrl html)).
            Scheme fileUrl = Scheme root \<and> Host fileUrl = Host root
            \<and> (\<exists>m. fileUrl = pageUrl\<lparr>Path := path_Join [Path pageUrl, m]\<rparr>))"
    if p: "pageUrl \<in> set (fst (parseURLs e root body ranges))" for pageUrl
  proof -
    from p obtain m where m: "pageUrl = root\<lparr>Path := path_Join [Path root, m] @ ''/''\<rparr>"
      using parseURLs_origin by blast
    have "Scheme fileUrl = Scheme root \<and> Host fileUrl = Host root
            \<and> (\<exists>m. fileUrl = pageUrl\<lparr>Path := path_Join [Path pageUrl, m]\<rparr>)"
      if f: "fileUrl \<in> set (fst (getTifUrls pageUrl html))" for fileUrl
    proof -
      from f obtain m' where "fileUrl = pageUrl\<lparr>Path := path_Join [Path pageUrl, m']\<rparr>"
        using getTifUrls_origin by blast
      with m show ?thesis by auto
    qed
    with m show ?thesis by auto
  qed
  then show ?thesis
    by (simp add: fst_main_go)
qed

text \<open>On the small archive: the sub-page and the tile keep \<^verbatim>\<open>https\<close> and the host.\<close>

theorem discovered_urls_keep_scheme_and_host_witness:
  "demo_sub \<in> set (fst (parseURLs demo_env demo_root demo_index [''5'']))
   \<and> demo_file \<in> set (fst (getTifUrls demo_sub demo_subpage))
   \<and> Scheme demo_sub = Scheme demo_root \<and> Host demo_sub = Host demo_root
   \<and> Scheme demo_file = Scheme demo_root \<and> Host demo_file = Host demo_root
   \<and> Scheme demo_file = ''https'' \<and> Host demo_file = ''files.example.org''"
proof -
  have p: "demo_sub \<in> set (fst (parseURLs demo_env demo_root demo_index [''5'']))"
    by (simp add: demo_parseURLs)
  have f: "demo_file \<in> set (fst (getTifUrls demo_sub demo_subpage))"
    by (simp add: demo_getTifUrls)
  have "Scheme demo_sub = Scheme demo_root \<and> Host demo_sub = Host demo_root
      \<and> Scheme demo_file = Scheme demo_root \<and> Host demo_file = Host demo_root"
    using discovered_urls_keep_scheme_and_host
      [of demo_env demo_root demo_index "[''5'']" demo_subpage] p f
    by blast
  then show ?thesis
    using p f by (simp add: demo_root_def)
qed

section \<open>The channels are left open\<close>

lemma handle_files_open:
  assumes "fin \<noteq> Closed"
  shows "fst (handle_files e us fin t) \<noteq> Completed"
proof (induction us arbitrary: t)
  case Nil
  from assms show ?case by (cases fin) auto
next
  case (Cons u us)
  then show ?case
    by (auto simp: Let_def split: prod.splits result.splits option.splits)
qed

lemma handle_files_not_cancelled:
  assumes "cancel_at e = None"
  shows "fst (handle_files e us fin t) \<noteq> Leave (Return v)"
proof (induction us arbitrary: t)
  case Nil
  show ?case by (cases fin) auto
next
  case (Cons u us)
  have "\<not> terminate_closed e t'" for t'
    using assms by (simp add: terminate_closed_def)
  with Cons show ?case
    by (auto simp: Let_def split: prod.splits result.splits option.splits)
qed

lemma handle_pages_open:
  assumes "fin \<noteq> Closed"
  shows "fst (handle_pages e us fin t) \<noteq> Completed"
proof (induction us arbitrary: t)
  case Nil
  from assms show ?case by (cases fin) auto
next
  case (Cons u us)
  then show ?case
    by (auto simp: Let_def split: prod.splits sum.splits loop.splits)
qed

lemma handle_pages_not_cancelled:
  assumes "cancel_at e = None"
  shows "fst (handle_pages e us fin t) \<noteq> Leave (Return v)"
proof (induction us arbitrary: t)
  case Nil
  show ?case by (cases fin) auto
next
  case (Cons u us)
  have n: "\<not> terminate_closed e t'" for t'
    using assms by (simp add: terminate_closed_def)
  have f: "handle_files e us' fin' t' \<noteq> (Leave (Return v), t'')" for us' fin' t' t''
    using handle_files_not_cancelled [OF assms, of us' fin' t' v] by auto
  from Cons n f show ?case
    by (auto simp: Let_def split: prod.splits sum.splits loop.splits)
qed

text \<open>
  Claim C2 (the code of the file with the cancellation does otherwise). The goroutines of
  getTifUrls and parseURLs end after the last send without closing the channel, where
  those of \<^verbatim>\<open>main.go\<close> close it. So neither loop of handle ever runs to its end: after the
  last value the receive blocks (when the process has not ended before). Unless
  \<^verbatim>\<open>terminate\<close> is closed, handle never returns nil.
\<close>

theorem channels_left_open_block_handle:
  "snd (getTifUrls pageURL page) = LeftOpen
   \<and> snd (parseURLs e pageURL body ranges) \<noteq> Closed
   \<and> snd (getTifUrls_main_go pageURL page) = Closed
   \<and> fst (handle_files e fileUrls (snd (getTifUrls pageURL page)) t) \<noteq> Completed
   \<and> fst (handle_pages e pageUrls (snd (parseURLs e pageURL body ranges)) t) \<noteq> Completed
   \<and> (cancel_at e = None \<longrightarrow> fst (handle e params t) \<noteq> Return None)"
proof -
  have "fst (handle e params t) \<noteq> Return None" if c: "cancel_at e = None"
  proof (cases "url_Parse e (Url params)")
    case None
    then show ?thesis by (simp add: handle_def)
  next
    case (Some baseURL)
    have "handle_pages e us fin t' \<noteq> (Completed, t'')"
      if "parseURLs e baseURL html (PageRanges params) = (us, fin)" for us fin html t' t''
      using handle_pages_open [of fin e us t'] parseURLs_not_closed [of e baseURL html "PageRanges params"] that
      by auto
    moreover have "handle_pages e us fin t' \<noteq> (Leave (Return None), t'')" for us fin t' t''
      using handle_pages_not_cancelled [OF c, of us fin t' None] by auto
    ultimately show ?thesis
      using Some
      by (auto simp: handle_def split: prod.splits sum.splits loop.splits)
  qed
  then show ?thesis
    by (simp add: getTifUrls_ends parseURLs_not_closed handle_files_open handle_pages_open)
qed

text \<open>
  On the small archive: after the one tile is downloaded, handle blocks on the channel
  of getTifUrls, where the handle of \<^verbatim>\<open>main.go\<close> returns nil after the same download.
\<close>

theorem channels_left_open_block_handle_witness:
  "cancel_at demo_env = None
   \<and> fst (handle demo_env demo_job []) = Block
   \<and> fst (handle_main_go demo_env demo_job []) = Return None
   \<and> snd (handle demo_env demo_job []) =
      [HttpGet demo_root, PollTerminate False, HttpGet demo_sub, PollTerminate False,
       PrintDownloading demo_file, HttpGet demo_file, OsStat ''/out/vol1/tileSG-5'',
       OsMkdirAll ''/out/vol1/tileSG-5'', OsCreate ''/out/vol1/tileSG-5/image1.tif'',
       IoCopy ''/out/vol1/tileSG-5/image1.tif'' 3]"
proof -
  have c: "cancel_at demo_env = None"
    by (simp add: demo_env_def)
  show ?thesis
    using channels_left_open_block_handle [where e = demo_env and params = demo_job and t = "[]"] c
    by (simp add: demo_handle demo_handle_main_go)
qed


section \<open>Splitting, joining and cleaning paths\<close>

lemma cons_first_append: "ps \<noteq> [] \<Longrightarrow> cons_first c (ps @ qs) = cons_first c ps @ qs"
  by (cases ps) auto

lemma Split_append_sep: "Split (p @ sep # q) sep = Split p sep @ Split q sep"
  by (induction p) (auto simp: cons_first_append Split_not_Nil)

lemma Split_no_sep: "sep \<notin> set s \<Longrightarrow> Split s sep = [s]"
  by (induction s) auto

lemma cons_first_set: "x \<in> set (cons_first c ps) \<Longrightarrow> (\<exists>y. x = c # y \<and> (y \<in> set ps \<or> ps = [] \<and> y = [])) \<or> x \<in> set ps"
  by (cases ps) auto

lemma Split_parts_no_sep: "x \<in> set (Split s sep) \<Longrightarrow> sep \<notin> set x"
proof (induction s arbitrary: x)
  case Nil
  then show ?case by simp
next
  case (Cons c s)
  show ?case
  proof (cases "c = sep")
    case True
    with Cons show ?thesis by auto
  next
    case False
    with Cons.prems have "x \<in> set (cons_first c (Split s sep))"
      by simp
    then show ?thesis
      using Cons.IH False Split_not_Nil [of s sep] by (auto dest!: cons_first_set)
  qed
qed

lemma Join_append:
  "es \<noteq> [] \<Longrightarrow> Join (out @ es) sep = (if out = [] then Join es sep else Join out sep @ sep @ Join es sep)"
proof (induction out rule: induct_list012)
  case 1
  then show ?case by simp
next
  case (2 e)
  then show ?case by (cases es) auto
next
  case (3 e e' es')
  then show ?case by auto
qed

lemma Split_Join:
  "es \<noteq> [] \<Longrightarrow> \<forall>e \<in> set es. sep \<notin> set e \<Longrightarrow> Split (Join es [sep]) sep = es"
proof (induction es rule: induct_list012)
  case 1
  then show ?case by simp
next
  case (2 e)
  then show ?case by (simp add: Split_no_sep)
next
  case (3 e e' es')
  note More = 3
  have "Split (Join (e # e' # es') [sep]) sep = Split (e @ sep # Join (e' # es') [sep]) sep"
    by simp
  also have "\<dots> = Split e sep @ Split (Join (e' # es') [sep]) sep"
    by (rule Split_append_sep)
  also have "\<dots> = [e] @ (e' # es')"
    using More by (simp add: Split_no_sep)
  finally show ?case by simp
qed

lemma dots_first_snoc_plain: "dots_first out \<Longrightarrow> e \<noteq> ''..'' \<Longrightarrow> dots_first (out @ [e])"
  by (induction out) auto

lemma dots_first_snoc_dots: "set out \<subseteq> {''..''} \<Longrightarrow> dots_first (out @ [''..''])"
  by (induction out) auto

lemma dots_first_last_dots:
  "dots_first out \<Longrightarrow> out \<noteq> [] \<Longrightarrow> last out = ''..'' \<Longrightarrow> set out \<subseteq> {''..''}"
  by (induction out) (auto split: if_splits dest: last_in_set)

lemma dots_first_before_dots: "dots_first (pre @ [''..'']) \<Longrightarrow> set pre \<subseteq> {''..''}"
  by (induction pre) (auto split: if_splits)

lemma dots_first_butlast: "dots_first out \<Longrightarrow> dots_first (butlast out)"
  by (induction out) (auto dest: in_set_butlastD)

lemma dots_first_prefix: "dots_first (xs @ ys) \<Longrightarrow> dots_first xs"
  by (induction xs) (auto split: if_splits)

lemma stack_ok_prefix: "stack_ok r (xs @ ys) \<Longrightarrow> stack_ok r xs"
  by (auto simp: stack_ok_def dest: dots_first_prefix split: if_splits)

lemma stack_ok_Nil: "stack_ok r []"
  by (simp add: stack_ok_def)

lemma stack_ok_snoc_plain:
  "stack_ok r out \<Longrightarrow> plain e \<Longrightarrow> CHR ''/'' \<notin> set e \<Longrightarrow> stack_ok r (out @ [e])"
  by (auto simp: stack_ok_def plain_def dots_first_snoc_plain split: if_splits)

lemma clean_step_plain: "plain e \<Longrightarrow> clean_step r out e = out @ [e]"
  by (simp add: clean_step_def plain_def)

lemma clean_step_ok:
  assumes "stack_ok r out" and "CHR ''/'' \<notin> set e"
  shows "stack_ok r (clean_step r out e)"
proof (cases "e = [] \<or> e = ''.''")
  case True
  with assms show ?thesis by (auto simp: clean_step_def)
next
  case False
  show ?thesis
  proof (cases "e = ''..''")
    case plain_e: False
    with False assms show ?thesis
      by (simp add: clean_step_plain stack_ok_snoc_plain plain_def)
  next
    case True
    show ?thesis
    proof (cases "out \<noteq> [] \<and> last out \<noteq> ''..''")
      case pop: True
      have "stack_ok r (butlast out)"
        using assms(1) by (auto simp: stack_ok_def list_all_iff dots_first_butlast
            dest: in_set_butlastD split: if_splits)
      with True pop show ?thesis
        by (simp add: clean_step_def)
    next
      case stay: False
      show ?thesis
      proof (cases r)
        case True
        with \<open>e = ''..''\<close> stay assms show ?thesis
          by (auto simp: clean_step_def)
      next
        case not_rooted: False
        have "set out \<subseteq> {''..''}"
          using stay assms(1) dots_first_last_dots [of out]
          by (cases "out = []") (auto simp: stack_ok_def)
        then have "dots_first (out @ [''..''])"
          by (rule dots_first_snoc_dots)
        with assms(1) not_rooted have "stack_ok r (out @ [''..''])"
          by (auto simp: stack_ok_def)
        with True stay not_rooted show ?thesis
          by (auto simp: clean_step_def)
      qed
    qed
  qed
qed

lemma clean_fold_ok:
  "stack_ok r out \<Longrightarrow> \<forall>e \<in> set es. CHR ''/'' \<notin> set e \<Longrightarrow>
     stack_ok r (foldl (clean_step r) out es)"
  by (induction es arbitrary: out) (auto simp: clean_step_ok)

lemma clean_elems_Split_ok: "stack_ok r (clean_elems r (Split p (CHR ''/'')))"
  unfolding clean_elems_def
  by (rule clean_fold_ok) (auto simp: stack_ok_Nil dest: Split_parts_no_sep)

lemma clean_step_keep:
  assumes "stack_ok r (pre @ [e])"
  shows "clean_step r pre e = pre @ [e]"
proof (cases "e = ''..''")
  case False
  with assms show ?thesis
    by (auto simp: clean_step_def stack_ok_def)
next
  case True
  with assms have "set pre \<subseteq> {''..''}" and "\<not> r"
    by (auto simp: stack_ok_def dest: dots_first_before_dots split: if_splits)
  then have "pre = [] \<or> last pre = ''..''"
    by (cases "pre = []") (auto dest: last_in_set)
  with True \<open>\<not> r\<close> show ?thesis
    by (auto simp: clean_step_def)
qed

lemma clean_fold_keep:
  "stack_ok r (pre @ out) \<Longrightarrow> foldl (clean_step r) pre out = pre @ out"
proof (induction out arbitrary: pre)
  case Nil
  then show ?case by simp
next
  case (Cons e es)
  from Cons.prems have "stack_ok r ((pre @ [e]) @ es)"
    by simp
  then have "stack_ok r (pre @ [e])"
    by (rule stack_ok_prefix)
  then have "clean_step r pre e = pre @ [e]"
    by (rule clean_step_keep)
  with Cons.IH [of "pre @ [e]"] Cons.prems show ?case
    by simp
qed

lemma path_Clean_render:
  "p \<noteq> [] \<Longrightarrow>
     path_Clean p = render (hd p = CHR ''/'') (clean_elems (hd p = CHR ''/'') (Split p (CHR ''/'')))"
  by (simp add: path_Clean_def render_def Let_def)

lemma Join_not_Nil: "out \<noteq> [] \<Longrightarrow> hd out \<noteq> [] \<Longrightarrow> Join out sep \<noteq> [] \<and> hd (Join out sep) = hd (hd out)"
  by (induction out rule: induct_list012) auto

lemma parse_render:
  assumes "stack_ok r out" and "out \<noteq> []"
  shows "render r out \<noteq> []" and "(hd (render r out) = CHR ''/'') = r"
    and "clean_elems r (Split (render r out) (CHR ''/'')) = out"
proof -
  have no_slash: "\<forall>e \<in> set out. CHR ''/'' \<notin> set e"
    using assms(1) by (auto simp: stack_ok_def list_all_iff)
  have h: "hd out \<noteq> []" "CHR ''/'' \<notin> set (hd out)"
    using assms by (auto simp: stack_ok_def list_all_iff)
  have j: "Join out ''/'' \<noteq> []" "hd (Join out ''/'') = hd (hd out)"
    using Join_not_Nil [OF assms(2) h(1)] by auto
  have sp: "Split (Join out ''/'') (CHR ''/'') = out"
    using Split_Join [OF assms(2) no_slash] by simp
  have keep: "foldl (clean_step r) [] out = out"
    using clean_fold_keep [of r "[]" out] assms(1) by simp
  show "render r out \<noteq> []"
    using j assms(2) by (simp add: render_def)
  show "(hd (render r out) = CHR ''/'') = r"
    using j h assms(2) by (cases "hd out") (auto simp: render_def)
  show "clean_elems r (Split (render r out) (CHR ''/'')) = out"
    using sp keep assms(2) by (auto simp: render_def clean_elems_def clean_step_def)
qed

lemma clean_fold_plain:
  "\<forall>e \<in> set es. plain e \<Longrightarrow> foldl (clean_step r) out es = out @ es"
  by (induction es arbitrary: out) (auto simp: clean_step_plain)

lemma Join_plain:
  assumes "es \<noteq> []" and "\<forall>e \<in> set es. plain e \<and> CHR ''/'' \<notin> set e"
  shows "Join es ''/'' \<noteq> []" and "hd (Join es ''/'') \<noteq> CHR ''/''"
    and "Split (Join es ''/'') (CHR ''/'') = es"
proof -
  have h: "hd es \<noteq> []" "CHR ''/'' \<notin> set (hd es)"
    using assms by (auto simp: plain_def)
  from Join_not_Nil [OF assms(1) h(1), of "''/''"] h
  show "Join es ''/'' \<noteq> []" and "hd (Join es ''/'') \<noteq> CHR ''/''"
    by (cases "hd es"; auto)+
  show "Split (Join es ''/'') (CHR ''/'') = es"
    using Split_Join [of es "CHR ''/''"] assms by simp
qed

lemma clean_append_plain:
  assumes "p \<noteq> []" and "es \<noteq> []" and "\<forall>e \<in> set es. plain e \<and> CHR ''/'' \<notin> set e"
  shows "path_Clean (p @ CHR ''/'' # Join es ''/'') =
           render (hd p = CHR ''/'') (clean_elems (hd p = CHR ''/'') (Split p (CHR ''/'')) @ es)"
proof -
  have "Split (p @ CHR ''/'' # Join es ''/'') (CHR ''/'') = Split p (CHR ''/'') @ es"
    using Join_plain(3) [OF assms(2,3)] by (simp add: Split_append_sep)
  moreover have "hd (p @ CHR ''/'' # Join es ''/'') = hd p"
    using assms(1) by simp
  ultimately show ?thesis
    using assms(1,3) by (simp add: path_Clean_render clean_elems_def clean_fold_plain)
qed

text \<open>The stack that \<^verbatim>\<open>path.Join\<close> starts from when its first element is \<open>targetDir\<close>.\<close>

lemma path_Join_render:
  assumes "es \<noteq> []" and "\<forall>e \<in> set es. plain e \<and> CHR ''/'' \<notin> set e"
  shows "path_Join [targetDir, Join es ''/''] =
           render (targetDir \<noteq> [] \<and> hd targetDir = CHR ''/'')
             (clean_elems (hd targetDir = CHR ''/'') (Split targetDir (CHR ''/'')) @ es)"
proof (cases "targetDir = []")
  case True
  have "path_Clean (Join es ''/'') = render False es"
    using Join_plain [OF assms] assms(2)
    by (simp add: path_Clean_render clean_elems_def clean_fold_plain)
  with True Join_plain(1) [OF assms] show ?thesis
    by (simp add: path_Join_def clean_elems_def clean_step_def)
next
  case False
  with Join_plain(1) [OF assms] clean_append_plain [OF False assms] show ?thesis
    by (simp add: path_Join_def)
qed

lemma render_append:
  "es \<noteq> [] \<Longrightarrow> out \<noteq> [] \<Longrightarrow> render r (out @ es) = render r out @ CHR ''/'' # Join es ''/''"
  by (simp add: render_def Join_append)

lemma render_only:
  "es \<noteq> [] \<Longrightarrow> render r ([] @ es) = (if r then CHR ''/'' # Join es ''/'' else Join es ''/'')"
  by (simp add: render_def)

lemma render_not_special:
  assumes "stack_ok r out" and "out \<noteq> []"
  shows "render r out \<noteq> ''/''" and "render r out \<noteq> ''.''"
proof -
  have h: "hd out \<noteq> []" "CHR ''/'' \<notin> set (hd out)" "hd out \<noteq> ''.''"
    using assms by (auto simp: stack_ok_def list_all_iff)
  have j: "Join out ''/'' \<noteq> []" "hd (Join out ''/'') = hd (hd out)"
    using Join_not_Nil [OF assms(2) h(1)] by auto
  then have "hd (Join out ''/'') \<noteq> CHR ''/''"
    using h by (cases "hd out") auto
  with j show "render r out \<noteq> ''/''"
    by (auto simp: render_def)
  have "Join out ''/'' \<noteq> ''.''"
  proof (cases out)
    case Nil
    with assms(2) show ?thesis by simp
  next
    case (Cons e rest)
    with h show ?thesis
      by (cases rest; cases e) auto
  qed
  then show "render r out \<noteq> ''.''"
    using assms(2) by (auto simp: render_def)
qed

lemma render_under_dir:
  assumes "es \<noteq> []"
  shows "render (targetDir \<noteq> [] \<and> hd targetDir = CHR ''/'')
           (clean_elems (hd targetDir = CHR ''/'') (Split targetDir (CHR ''/'')) @ es)
         = under_dir targetDir (Join es ''/'')"
proof (cases "targetDir = []")
  case True
  with assms show ?thesis
    by (simp add: under_dir_def render_def clean_elems_def clean_step_def)
next
  case False
  let ?r = "hd targetDir = CHR ''/''"
  let ?out = "clean_elems ?r (Split targetDir (CHR ''/''))"
  have ok: "stack_ok ?r ?out"
    by (rule clean_elems_Split_ok)
  have c: "path_Clean targetDir = render ?r ?out"
    using False by (rule path_Clean_render)
  show ?thesis
  proof (cases "?out = []")
    case True
    with False assms c show ?thesis
      by (auto simp: under_dir_def render_def)
  next
    case out: False
    from render_not_special [OF ok out] c render_append [OF assms out, of ?r] False
    show ?thesis
      by (simp add: under_dir_def)
  qed
qed

lemma path_Join_under_dir:
  assumes "es \<noteq> []" and "\<forall>e \<in> set es. plain e \<and> CHR ''/'' \<notin> set e"
  shows "path_Join [targetDir, Join es ''/''] = under_dir targetDir (Join es ''/'')"
  using path_Join_render [OF assms] render_under_dir [OF assms(1)] by simp

lemma path_Join_twice:
  assumes "es \<noteq> []" and "\<forall>e \<in> set es. plain e \<and> CHR ''/'' \<notin> set e"
    and "plain f" and "CHR ''/'' \<notin> set f"
  shows "path_Join [path_Join [targetDir, Join es ''/''], f] =
           path_Join [targetDir, Join (es @ [f]) ''/'']"
proof -
  let ?r = "targetDir \<noteq> [] \<and> hd targetDir = CHR ''/''"
  let ?out = "clean_elems (hd targetDir = CHR ''/'') (Split targetDir (CHR ''/''))"
  let ?dir = "render ?r (?out @ es)"
  have ok0: "stack_ok ?r ?out"
    using clean_elems_Split_ok [of "hd targetDir = CHR ''/''" targetDir]
    by (cases "targetDir = []") (auto simp: stack_ok_def clean_elems_def clean_step_def)
  have ok: "stack_ok ?r (?out @ es')" if "\<forall>e \<in> set es'. plain e \<and> CHR ''/'' \<notin> set e" for es'
    using that
  proof (induction es' rule: rev_induct)
    case Nil
    from ok0 show ?case by simp
  next
    case (snoc e es')
    then have "stack_ok ?r ((?out @ es') @ [e])"
      by (intro stack_ok_snoc_plain) auto
    then show ?case by simp
  qed
  have ne: "?out @ es \<noteq> []"
    using assms(1) by simp
  note pr = parse_render [OF ok [OF assms(2)] ne]
  have "path_Join [?dir, f] = path_Clean (?dir @ CHR ''/'' # Join [f] ''/'')"
    using pr(1) assms(3) by (simp add: path_Join_def plain_def)
  also have "\<dots> = render (hd ?dir = CHR ''/'')
      (clean_elems (hd ?dir = CHR ''/'') (Split ?dir (CHR ''/'')) @ [f])"
    using pr(1) assms(3,4) by (intro clean_append_plain) auto
  also have "\<dots> = render ?r ((?out @ es) @ [f])"
    using pr(2,3) by simp
  finally have "path_Join [?dir, f] = render ?r (?out @ (es @ [f]))"
    by simp
  moreover have "path_Join [targetDir, Join es ''/''] = ?dir"
    by (rule path_Join_render [OF assms(1,2)])
  moreover have "path_Join [targetDir, Join (es @ [f]) ''/''] = render ?r (?out @ (es @ [f]))"
    using assms by (intro path_Join_render) auto
  ultimately show ?thesis
    by simp
qed

section \<open>The target path of createFile\<close>

text \<open>
  Claim C4. When the URL path splits at the slashes into three or more parts, the last
  three of them ordinary segments \<open>a\<close>, \<open>b\<close> and \<open>f\<close>, createFile derives the directory
  \<open>a/b\<close> under the target directory and the file \<open>a/b/f\<close> under it, whatever comes
  before in the path; it makes the directory when \<^verbatim>\<open>os.Stat\<close> says it does not exist and
  returns the created file when the file system does not fail. The result is a function
  of the path and the target directory.
\<close>

theorem createFile_target_path:
  assumes "Split urlPath (CHR ''/'') = front @ [a, b, f]"
    and "plain a" and "plain b" and "plain f"
  shows "createFile_paths targetDir urlPath =
           Some (under_dir targetDir (a @ ''/'' @ b),
                 under_dir targetDir (a @ ''/'' @ b @ ''/'' @ f))
         \<and> (os_MkdirAll e (under_dir (TargetDir (config e)) (a @ ''/'' @ b)) = None
              \<and> os_Create e (under_dir (TargetDir (config e)) (a @ ''/'' @ b @ ''/'' @ f)) = None
            \<longrightarrow> createFile e urlPath t =
                  (Return (Inr (under_dir (TargetDir (config e)) (a @ ''/'' @ b @ ''/'' @ f))),
                   t @ (if os_Stat_IsNotExist e (under_dir (TargetDir (config e)) (a @ ''/'' @ b))
                        then [OsStat (under_dir (TargetDir (config e)) (a @ ''/'' @ b)),
                              OsMkdirAll (under_dir (TargetDir (config e)) (a @ ''/'' @ b))]
                        else [OsStat (under_dir (TargetDir (config e)) (a @ ''/'' @ b))])
                     @ [OsCreate (under_dir (TargetDir (config e)) (a @ ''/'' @ b @ ''/'' @ f))]))"
proof -
  let ?parts = "Split urlPath (CHR ''/'')"
  have mem: "a \<in> set ?parts" "b \<in> set ?parts" "f \<in> set ?parts"
    using assms(1) by auto
  have ns: "CHR ''/'' \<notin> set a" "CHR ''/'' \<notin> set b" "CHR ''/'' \<notin> set f"
    using mem by (auto dest: Split_parts_no_sep)
  have n: "length ?parts = length front + 3" "\<not> length ?parts < 3"
    using assms(1) by auto
  have sl: "take 2 (drop (length ?parts - 3) ?parts) = [a, b]"
    "?parts ! (length ?parts - 1) = f"
    using assms(1) by (auto simp: nth_append)
  have paths: "createFile_paths T urlPath =
      Some (under_dir T (a @ ''/'' @ b), under_dir T (a @ ''/'' @ b @ ''/'' @ f))" for T
  proof -
    have 1: "path_Join [T, Join [a, b] ''/''] = under_dir T (Join [a, b] ''/'')"
      using assms(2,3) ns by (intro path_Join_under_dir) auto
    have 2: "path_Join [path_Join [T, Join [a, b] ''/''], f] = path_Join [T, Join ([a, b] @ [f]) ''/'']"
      using assms(2,3,4) ns by (intro path_Join_twice) auto
    have 3: "path_Join [T, Join [a, b, f] ''/''] = under_dir T (Join [a, b, f] ''/'')"
      using assms(2,3,4) ns by (intro path_Join_under_dir) auto
    show ?thesis
      using 1 2 3 n(2) sl by (simp add: createFile_paths_def Let_def)
  qed
  show ?thesis
    by (simp add: paths createFile_def createFile_create_def)
qed

text \<open>The example of the specification.\<close>

theorem createFile_target_path_witness:
  "Split ''/archive/vol1/p3/image1.tif'' (CHR ''/'') =
     ['''', ''archive''] @ [''vol1'', ''p3'', ''image1.tif'']
   \<and> plain ''vol1'' \<and> plain ''p3'' \<and> plain ''image1.tif''
   \<and> createFile_paths ''/out'' ''/archive/vol1/p3/image1.tif'' =
       Some (''/out/vol1/p3'', ''/out/vol1/p3/image1.tif'')
   \<and> createFile demo_env ''/archive/vol1/p3/image1.tif'' [] =
       (Return (Inr ''/out/vol1/p3/image1.tif''),
        [OsStat ''/out/vol1/p3'', OsMkdirAll ''/out/vol1/p3'', OsCreate ''/out/vol1/p3/image1.tif''])"
proof -
  have s: "Split ''/archive/vol1/p3/image1.tif'' (CHR ''/'') =
     ['''', ''archive''] @ [''vol1'', ''p3'', ''image1.tif'']"
    by simp
  have p: "plain ''vol1''" "plain ''p3''" "plain ''image1.tif''"
    by (simp_all add: plain_def)
  have u: "under_dir ''/out'' rel = ''/out/'' @ rel" for rel
    by (simp add: under_dir_def path_defs)
  have c: "TargetDir (config demo_env) = ''/out''" "os_MkdirAll demo_env d = None"
    "os_Create demo_env d = None" "os_Stat_IsNotExist demo_env d" for d
    by (simp_all add: demo_env_def)
  show ?thesis
    using createFile_target_path [OF s p, of "''/out''" demo_env "[]"] s p
    by (simp add: u c)
qed


section \<open>The greedy match of getTifUrls\<close>

lemma rmatch_lits:
  "rmatch (lits w) s caps = (if take (length w) s = w then [(drop (length w) s, caps)] else [])"
proof (induction w arbitrary: s)
  case Nil
  show ?case by simp
next
  case (Cons c w)
  show ?case
  proof (cases s)
    case Nil
    then show ?thesis by simp
  next
    case (Cons x xs)
    with Cons.IH [of xs] show ?thesis by simp
  qed
qed

lemma rev_upt_Suc: "rev [0..<Suc (Suc n)] = map Suc (rev [0..<Suc n]) @ [0]"
proof -
  have "[0..<Suc (Suc n)] = 0 # map Suc [0..<Suc n]"
    using upt_conv_Cons [of 0 "Suc (Suc n)"] map_Suc_upt [of 0 "Suc n"] by simp
  then show ?thesis
    by (simp only: rev.simps rev_map)
qed

lemma rmatch_star_any:
  "rmatch (Star AnyNotNL) s caps =
     map (\<lambda>k. (drop k s, caps)) (rev [0..<Suc (length (takeWhile (\<lambda>c. c \<noteq> CHR 0x0A) s))])"
proof (induction s)
  case Nil
  show ?case by simp
next
  case (Cons x xs)
  show ?case
  proof (cases "x = CHR 0x0A")
    case True
    then show ?thesis by simp
  next
    case False
    let ?n = "length (takeWhile (\<lambda>c. c \<noteq> CHR 0x0A) xs)"
    have "rmatch (Star AnyNotNL) (x # xs) caps = rmatch (Star AnyNotNL) xs caps @ [(x # xs, caps)]"
      using False by simp
    also have "\<dots> = map (\<lambda>k. (drop k xs, caps)) (rev [0..<Suc ?n]) @ [(x # xs, caps)]"
      by (simp only: Cons.IH)
    also have "\<dots> = map (\<lambda>k. (drop k (x # xs), caps)) (map Suc (rev [0..<Suc ?n]) @ [0])"
      by (simp add: comp_def)
    also have "\<dots> = map (\<lambda>k. (drop k (x # xs), caps)) (rev [0..<Suc (Suc ?n)])"
      by (simp only: rev_upt_Suc)
    finally show ?thesis
      using False by simp
  qed
qed

lemma concat_map_if:
  "concat (map (\<lambda>k. if P k then [f k] else []) ks) = map f (filter P ks)"
  by (induction ks) auto

lemma take_length_drop: "take (length s - (length s - j)) s = take j s"
  by (cases "j \<le> length s") auto

lemma rmatch_then_lits:
  assumes "rmatch r s caps = map (\<lambda>k. (drop k s, caps)) ks"
  shows "rmatch (Seq r (lits w)) s caps =
           map (\<lambda>k. (drop (k + length w) s, caps)) (filter (\<lambda>k. take (length w) (drop k s) = w) ks)"
  unfolding rmatch.simps(4) assms rmatch_lits
  by (simp add: comp_def concat_map_if add.commute)

lemma rmatch_group:
  assumes "rmatch r s [c] = map (\<lambda>k. (drop (g k) s, [c])) ks"
  shows "rmatch (Group 1 r) s [c] = map (\<lambda>k. (drop (g k) s, [take (g k) s])) ks"
  unfolding rmatch.simps(8) assms
  by (simp add: comp_def take_length_drop)

lemma rmatch_Lit: "rmatch (Lit q) s caps = (if s \<noteq> [] \<and> hd s = q then [(tl s, caps)] else [])"
  by (cases s) auto

lemma rmatch_Lit_drop:
  "rmatch (Lit q) (drop j s) caps =
     (if j < length s \<and> s ! j = q then [(drop (Suc j) s, caps)] else [])"
  by (auto simp: rmatch_Lit hd_drop_conv_nth drop_Suc tl_drop simp del: rmatch.simps)

lemma rmatch_then_Lit:
  assumes "rmatch r s caps0 = map (\<lambda>k. (drop (g k) s, h k)) ks"
  shows "rmatch (Seq r (Lit q)) s caps0 =
           map (\<lambda>k. (drop (Suc (g k)) s, h k)) (filter (\<lambda>k. g k < length s \<and> s ! g k = q) ks)"
  unfolding rmatch.simps(4) assms
  by (simp only: map_map comp_def fst_conv snd_conv rmatch_Lit_drop concat_map_if)

text \<open>
  The matches of \<^verbatim>\<open>(.*w)q\<close> on a text \<open>s\<close>, in the order of the search: one for every
  length \<open>k\<close> of the star, from the end of the line down to zero, such that \<open>w\<close> and \<open>q\<close>
  follow.
\<close>

lemma rmatch_tail:
  "rmatch (Seq (Group 1 (Seq (Star AnyNotNL) (lits w))) (Lit q)) s [c] =
     map (\<lambda>k. (drop (Suc (k + length w)) s, [take (k + length w) s]))
       (filter (\<lambda>k. take (length w) (drop k s) = w \<and> k + length w < length s
                    \<and> s ! (k + length w) = q)
          (rev [0..<Suc (length (takeWhile (\<lambda>c. c \<noteq> CHR 0x0A) s))]))"
proof -
  let ?ks = "rev [0..<Suc (length (takeWhile (\<lambda>c. c \<noteq> CHR 0x0A) s))]"
  note 1 = rmatch_then_lits [where w = w, OF rmatch_star_any [of s "[c]"]]
  note 2 = rmatch_group [where g = "\<lambda>k. k + length w", OF 1]
  note 3 = rmatch_then_Lit [where g = "\<lambda>k. k + length w" and h = "\<lambda>k. [take (k + length w) s]"
      and q = q, OF 2]
  show ?thesis
    unfolding 3 filter_filter by (rule arg_cong [where f = "map _"]) (rule filter_cong, auto)
qed

lemma first_of_filter_rev:
  "filter P (rev [0..<Suc n]) = k # ks \<Longrightarrow> P k \<and> k \<le> n \<and> (\<forall>j. k < j \<and> j \<le> n \<longrightarrow> \<not> P j)"
proof (induction n)
  case 0
  then show ?case by (auto split: if_splits)
next
  case (Suc n)
  show ?case
  proof (cases "P (Suc n)")
    case True
    with Suc.prems show ?thesis by auto
  next
    case False
    with Suc.prems have "filter P (rev [0..<Suc n]) = k # ks"
      by simp
    from Suc.IH [OF this] False show ?thesis
      by (auto simp: le_Suc_eq)
  qed
qed

lemma rmatch_href:
  "rmatch (Seq (lits H) (Seq (Group 1 (Seq (Star AnyNotNL) (lits w))) (Lit q))) t [c] =
     (if take (length H) t = H
      then map (\<lambda>k. (drop (Suc (k + length w)) (drop (length H) t),
                      [take (k + length w) (drop (length H) t)]))
             (filter (follows_at w q (drop (length H) t))
                (rev [0..<Suc (line_length (drop (length H) t))]))
      else [])"
proof -
  have "rmatch (Seq (lits H) r) t [c] =
      (if take (length H) t = H then rmatch r (drop (length H) t) [c] else [])" for r
    unfolding rmatch.simps(4) rmatch_lits by simp
  then show ?thesis
    by (simp only: rmatch_tail follows_at_def [abs_def] line_length_def)
qed

text \<open>
  What the first match at a position is: the capture reaches the last position of the
  line after which \<open>w\<close> and \<open>q\<close> follow.
\<close>

lemma rmatch_href_first:
  assumes "rmatch (Seq (lits H) (Seq (Group 1 (Seq (Star AnyNotNL) (lits w))) (Lit q))) t [c] = x # xs"
  shows "\<exists>k. take (length H) t = H \<and> greedy_at w q (drop (length H) t) k
           \<and> x = (drop (Suc (k + length w)) (drop (length H) t),
                  [take (k + length w) (drop (length H) t)])"
proof -
  let ?s = "drop (length H) t"
  let ?f = "\<lambda>k. (drop (Suc (k + length w)) ?s, [take (k + length w) ?s])"
  let ?ks = "filter (follows_at w q ?s) (rev [0..<Suc (line_length ?s)])"
  have eq: "(if take (length H) t = H then map ?f ?ks else []) = x # xs"
    using assms unfolding rmatch_href .
  then have H: "take (length H) t = H"
    by (cases "take (length H) t = H") simp_all
  with eq have "map ?f ?ks = x # xs"
    by simp
  then obtain k ks where
    f: "filter (follows_at w q ?s) (rev [0..<Suc (line_length ?s)]) = k # ks"
    and x: "x = (drop (Suc (k + length w)) ?s, [take (k + length w) ?s])"
    by (auto simp only: map_eq_Cons_conv)
  from first_of_filter_rev [OF f] have "greedy_at w q ?s k"
    by (simp add: greedy_at_def)
  with H x show ?thesis
    by blast
qed

lemma NumSubexp_lits: "NumSubexp (lits w) = 0"
  by (induction w) auto

lemma NumSubexp_href:
  "NumSubexp (Seq (lits H) (Seq (Group 1 (Seq (Star AnyNotNL) (lits w))) (Lit q))) = 1"
  by (simp add: NumSubexp_lits)

text \<open>
  Every match that \<^verbatim>\<open>FindAllStringSubmatch\<close> delivers for an expression whose first
  match at a position is the greedy one stands after some prefix of the text, and its
  capture is the greedy one there.
\<close>

lemma findAll_greedy:
  assumes init: "replicate (NumSubexp re) ([] :: string) = [[]]"
    and first: "\<forall>t x xs. rmatch re t [[]] = x # xs \<longrightarrow>
      (\<exists>k. take (length H) t = H \<and> greedy_at w q (drop (length H) t) k
           \<and> x = (drop (Suc (k + length w)) (drop (length H) t),
                  [take (k + length w) (drop (length H) t)]))"
    and mem: "m \<in> set (findAll re t abut)"
  shows "\<exists>pre s k. t = pre @ H @ s \<and> greedy_at w q s k
           \<and> m = [H @ take (k + length w) s @ [q], take (k + length w) s]"
  using assms
proof (induction re t abut arbitrary: m rule: findAll.induct)
  case (1 re t abut)
  note init = "1.prems"(1) and first = "1.prems"(2) and mem = "1.prems"(3)
  show ?case
  proof (cases "rmatch re t (replicate (NumSubexp re) [])")
    case Nil
    show ?thesis
    proof (cases t)
      case Nil_t: Nil
      from mem Nil Nil_t show ?thesis
        by (subst (asm) findAll.simps) simp
    next
      case (Cons c cs)
      from mem Nil Cons have "m \<in> set (findAll re cs False)"
        by (subst (asm) findAll.simps) simp
      from "1.IH"(1) [OF Nil Cons init first this] obtain pre s k where
        "cs = pre @ H @ s" "greedy_at w q s k"
        "m = [H @ take (k + length w) s @ [q], take (k + length w) s]"
        by blast
      with Cons show ?thesis
        by (intro exI [of _ "c # pre"] exI [of _ s] exI [of _ k]) simp
    qed
  next
    case (Cons x xs)
    then have "rmatch re t [[]] = x # xs"
      unfolding init .
    from first [rule_format, OF this] obtain k where
      H: "take (length H) t = H" and g: "greedy_at w q (drop (length H) t) k"
      and x: "x = (drop (Suc (k + length w)) (drop (length H) t),
                  [take (k + length w) (drop (length H) t)])"
      by blast
    let ?s = "drop (length H) t"
    let ?n = "length H + Suc (k + length w)"
    have t: "t = H @ ?s"
      using H append_take_drop_id [of "length H" t] by simp
    have lt: "k + length w < length ?s" and q: "?s ! (k + length w) = q"
      using g by (auto simp: greedy_at_def follows_at_def)
    have lenH: "length H \<le> length t"
      using arg_cong [OF H, of length] by simp
    have consumed: "length t - length (fst x) = ?n"
      using x lt lenH by simp
    have whole: "take ?n t = H @ take (k + length w) ?s @ [q]"
    proof -
      have "take ?n (H @ ?s) = H @ take (Suc (k + length w)) ?s"
        by simp
      also have "take (Suc (k + length w)) ?s = take (k + length w) ?s @ [q]"
        using lt q by (simp add: take_Suc_conv_app_nth)
      finally show ?thesis
        using t by simp
    qed
    from mem Cons consumed
    have "m = take ?n t # snd x \<or> m \<in> set (findAll re (drop ?n t) True)"
      by (subst (asm) findAll.simps) (simp add: Let_def)
    then show ?thesis
    proof
      assume "m = take ?n t # snd x"
      with whole x t g show ?thesis
        by (intro exI [of _ "[]"] exI [of _ ?s] exI [of _ k]) simp
    next
      assume "m \<in> set (findAll re (drop ?n t) True)"
      then have rec: "m \<in> set (findAll re (drop (length t - length (fst x)) t) True)"
        using consumed by simp
      have ne: "length t - length (fst x) \<noteq> 0"
        using consumed by simp
      from "1.IH"(3) [OF Cons refl ne init first rec] obtain pre s k' where
        d: "drop (length t - length (fst x)) t = pre @ H @ s" and "greedy_at w q s k'"
        and "m = [H @ take (k' + length w) s @ [q], take (k' + length w) s]"
        by blast
      moreover have "t = (take ?n t @ pre) @ H @ s"
        using d consumed append_take_drop_id [of ?n t] by simp
      ultimately show ?thesis
        by blast
    qed
  qed
qed

lemma le_line_length:
  assumes "j \<le> length s" and "CHR 0x0A \<notin> set (take j s)"
  shows "j \<le> line_length s"
proof (rule ccontr)
  let ?n = "length (takeWhile (\<lambda>c. c \<noteq> CHR 0x0A) s)"
  assume "\<not> j \<le> line_length s"
  then have n: "?n < j"
    by (simp add: line_length_def)
  with assms(1) have "?n < length s"
    by simp
  then have "\<not> (s ! ?n \<noteq> CHR 0x0A)"
    by (rule nth_length_takeWhile)
  moreover have "s ! ?n \<in> set (take j s)"
    using n assms(1) by (metis in_set_conv_nth length_take min.absorb2 nth_take)
  ultimately show False
    using assms(2) by simp
qed

lemma line_length_no_newline:
  assumes "k \<le> line_length s"
  shows "CHR 0x0A \<notin> set (take k s)"
proof -
  let ?p = "takeWhile (\<lambda>c. c \<noteq> CHR 0x0A) s"
  have "take k s = take k (?p @ dropWhile (\<lambda>c. c \<noteq> CHR 0x0A) s)"
    by simp
  also have "\<dots> = take k ?p"
    using assms by (simp add: line_length_def del: takeWhile_dropWhile_id)
  finally have "set (take k s) \<subseteq> set ?p"
    by (simp add: set_take_subset)
  then show ?thesis
    by (auto dest: set_takeWhileD)
qed

text \<open>The greedy position, said with strings.\<close>

lemma greedy_at_strings:
  assumes g: "greedy_at w q s k" and w: "CHR 0x0A \<notin> set w" and q: "q \<noteq> CHR 0x0A"
  shows "\<exists>x post. s = x @ w @ q # post \<and> take (k + length w) s = x @ w
           \<and> CHR 0x0A \<notin> set x
           \<and> (\<forall>y z. post = y @ w @ q # z \<longrightarrow> CHR 0x0A \<in> set y)"
proof -
  let ?x = "take k s" and ?post = "drop (Suc (k + length w)) s"
  from g have k: "k \<le> line_length s" and tw: "take (length w) (drop k s) = w"
    and lt: "k + length w < length s" and sq: "s ! (k + length w) = q"
    and mx: "\<And>j. k < j \<Longrightarrow> j \<le> line_length s \<Longrightarrow> \<not> follows_at w q s j"
    by (auto simp: greedy_at_def follows_at_def)
  have "drop k s = take (length w) (drop k s) @ drop (length w) (drop k s)"
    by (rule append_take_drop_id [symmetric])
  also have "\<dots> = w @ drop (k + length w) s"
    using tw by (simp add: add.commute)
  also have "drop (k + length w) s = q # ?post"
    using lt sq by (metis Cons_nth_drop_Suc)
  finally have dk: "drop k s = w @ q # ?post" .
  have s: "s = ?x @ w @ q # ?post"
    using dk append_take_drop_id [of k s] by simp
  have tk: "take (k + length w) s = ?x @ w"
  proof -
    have "take (k + length w) s = take k s @ take (length w) (drop k s)"
      by (simp add: take_add)
    with tw show ?thesis by simp
  qed
  have nx: "CHR 0x0A \<notin> set ?x"
    using k by (rule line_length_no_newline)
  have "CHR 0x0A \<in> set y" if p: "?post = y @ w @ q # z" for y z
  proof (rule ccontr)
    assume ny: "CHR 0x0A \<notin> set y"
    let ?j = "Suc (k + length w) + length y"
    have kx: "length ?x = k"
      using lt by simp
    have s': "s = (?x @ w @ q # y) @ w @ q # z"
      using s p by simp
    have lj: "length (?x @ w @ q # y) = ?j"
      using kx by simp
    have dj: "drop ?j s = w @ q # z"
      using s' lj by (metis append_eq_conv_conj)
    have tj: "take ?j s = ?x @ w @ q # y"
      using s' lj by (metis append_eq_conv_conj)
    have "follows_at w q s ?j"
    proof -
      have "take (length w) (drop ?j s) = w"
        using dj by simp
      moreover have "?j + length w < length s"
        using arg_cong [OF s', of length] lj by simp
      moreover have "s ! (?j + length w) = q"
      proof -
        have "s ! (?j + length w) = drop ?j s ! length w"
          using \<open>?j + length w < length s\<close> by simp
        also have "\<dots> = q"
          using dj by simp
        finally show ?thesis .
      qed
      ultimately show ?thesis
        by (simp add: follows_at_def)
    qed
    moreover have "?j \<le> line_length s"
    proof (rule le_line_length)
      show "?j \<le> length s"
        using arg_cong [OF s', of length] lj by simp
      show "CHR 0x0A \<notin> set (take ?j s)"
        using tj nx w q ny by auto
    qed
    moreover have "k < ?j"
      by simp
    ultimately show False
      using mx by blast
  qed
  with s tk nx show ?thesis
    by blast
qed

lemma tif_sends_from_match:
  "tif_sends pageURL ms = (us, p) \<Longrightarrow> u \<in> set us \<Longrightarrow>
     \<exists>m \<in> set ms. u = pageURL\<lparr>Path := path_Join [Path pageURL, m ! 1]\<rparr>"
proof (induction ms arbitrary: us p)
  case Nil
  then show ?case by simp
next
  case (Cons m ms)
  obtain us' p' where r: "tif_sends pageURL ms = (us', p')"
    by (cases "tif_sends pageURL ms")
  show ?case
  proof (cases "length m \<le> 1")
    case True
    with Cons.prems show ?thesis by simp
  next
    case False
    with Cons.prems r have "us = pageURL\<lparr>Path := path_Join [Path pageURL, m ! 1]\<rparr> # us'"
      by (simp add: Let_def)
    with Cons.prems(2) consider "u = pageURL\<lparr>Path := path_Join [Path pageURL, m ! 1]\<rparr>"
      | "u \<in> set us'"
      by auto
    then show ?thesis
    proof cases
      case 1
      then show ?thesis by simp
    next
      case 2
      from Cons.IH [OF r 2] show ?thesis by auto
    qed
  qed
qed

lemma getTifUrls_from_match:
  assumes "u \<in> set (fst (getTifUrls pageURL page))"
  shows "\<exists>m \<in> set (FindAllStringSubmatch tif_re page).
           u = pageURL\<lparr>Path := path_Join [Path pageURL, m ! 1]\<rparr>"
proof -
  obtain us p where s: "tif_sends pageURL (FindAllStringSubmatch tif_re page) = (us, p)"
    by (cases "tif_sends pageURL (FindAllStringSubmatch tif_re page)")
  with assms have "u \<in> set us"
    by (cases p) (simp_all add: getTifUrls_def)
  with s show ?thesis
    by (rule tif_sends_from_match)
qed

lemma tif_matches_greedy:
  assumes "m \<in> set (FindAllStringSubmatch tif_re page)"
  shows "\<exists>pre x post. page = pre @ (''href='' @ [CHR 0x22]) @ x @ ''.tif'' @ CHR 0x22 # post
           \<and> m ! 1 = x @ ''.tif''
           \<and> CHR 0x0A \<notin> set x
           \<and> (\<forall>y z. post = y @ ''.tif'' @ CHR 0x22 # z \<longrightarrow> CHR 0x0A \<in> set y)"
proof -
  let ?H = "''href='' @ [CHR 0x22]" and ?w = "''.tif''" and ?q = "CHR 0x22"
  have init: "replicate (NumSubexp tif_re) ([] :: string) = [[]]"
    unfolding tif_re_def NumSubexp_href by simp
  have first: "\<forall>t x xs. rmatch tif_re t [[]] = x # xs \<longrightarrow>
      (\<exists>k. take (length ?H) t = ?H \<and> greedy_at ?w ?q (drop (length ?H) t) k
           \<and> x = (drop (Suc (k + length ?w)) (drop (length ?H) t),
                  [take (k + length ?w) (drop (length ?H) t)]))"
    unfolding tif_re_def using rmatch_href_first by blast
  from findAll_greedy [OF init first, where m = m and t = page and abut = False] assms
  obtain pre s k where p: "page = pre @ ?H @ s" and g: "greedy_at ?w ?q s k"
    and m: "m = [?H @ take (k + length ?w) s @ [?q], take (k + length ?w) s]"
    unfolding FindAllStringSubmatch_def by blast
  from greedy_at_strings [OF g] obtain x post where
    "s = x @ ?w @ ?q # post" "take (k + length ?w) s = x @ ?w" "CHR 0x0A \<notin> set x"
    "\<forall>y z. post = y @ ?w @ ?q # z \<longrightarrow> CHR 0x0A \<in> set y"
    by auto
  with p m show ?thesis
    by (intro exI [of _ pre] exI [of _ x] exI [of _ post]) simp
qed

lemma tif_sends_map:
  "\<forall>m \<in> set ms. 1 < length m \<Longrightarrow>
     fst (tif_sends pageURL ms) =
       map (\<lambda>m. pageURL\<lparr>Path := path_Join [Path pageURL, m ! 1]\<rparr>) ms"
  by (induction ms) (auto simp: Let_def split: prod.splits)

lemma getTifUrls_map:
  "fst (getTifUrls pageURL page) =
     map (\<lambda>m. pageURL\<lparr>Path := path_Join [Path pageURL, m ! 1]\<rparr>)
       (FindAllStringSubmatch tif_re page)"
proof -
  have "NumSubexp tif_re = 1"
    by (simp add: tif_re_def NumSubexp_lits)
  then have "\<forall>m \<in> set (FindAllStringSubmatch tif_re page). 1 < length m"
    using findAll_lengths [of _ tif_re page False] by (simp add: FindAllStringSubmatch_def)
  from tif_sends_map [OF this, of pageURL] show ?thesis
    by (auto simp: getTifUrls_def split: prod.splits bool.splits)
qed

text \<open>A text in which the expression matches somewhere has at least one match delivered.\<close>

lemma findAll_not_Nil:
  assumes init: "replicate (NumSubexp re) ([] :: string) = [[]]"
    and progress: "\<forall>t x xs. rmatch re t [[]] = x # xs \<longrightarrow> length (fst x) < length t"
    and "rmatch re (drop i t) [[]] \<noteq> []" and "i \<le> length t"
  shows "findAll re t abut \<noteq> []"
  using assms(3,4)
proof (induction i arbitrary: t abut)
  case 0
  then obtain x xs where x: "rmatch re t [[]] = x # xs"
    by (cases "rmatch re t [[]]") auto
  from progress [rule_format, OF x] have "length t - length (fst x) \<noteq> 0"
    by simp
  with x init show ?case
    by (subst findAll.simps) (simp add: Let_def)
next
  case (Suc i)
  show ?case
  proof (cases "rmatch re t [[]]")
    case (Cons x xs)
    from progress [rule_format, OF Cons] have "length t - length (fst x) \<noteq> 0"
      by simp
    with Cons init show ?thesis
      by (subst findAll.simps) (simp add: Let_def)
  next
    case Nil
    from Suc.prems(2) obtain c cs where t: "t = c # cs"
      by (cases t) auto
    with Suc.prems have "rmatch re (drop i cs) [[]] \<noteq> []" "i \<le> length cs"
      by auto
    from Suc.IH [OF this] Nil t init show ?thesis
      by (subst findAll.simps) simp
  qed
qed

lemma rmatch_href_not_Nil:
  assumes "CHR 0x0A \<notin> set x"
  shows "rmatch (Seq (lits H) (Seq (Group 1 (Seq (Star AnyNotNL) (lits w))) (Lit q)))
           (H @ x @ w @ q # post) [c] \<noteq> []"
proof -
  let ?s = "x @ w @ q # post"
  have d: "drop (length H) (H @ ?s) = ?s" and tk: "take (length H) (H @ ?s) = H"
    by simp_all
  have f: "follows_at w q ?s (length x)"
    by (simp add: follows_at_def nth_append)
  have "length x \<le> line_length ?s"
    using assms by (intro le_line_length) auto
  then have "length x \<in> set (rev [0..<Suc (line_length ?s)])"
    by (simp del: upt_Suc)
  with f have "filter (follows_at w q ?s) (rev [0..<Suc (line_length ?s)]) \<noteq> []"
    by (auto simp: filter_empty_conv simp del: upt_Suc)
  then show ?thesis
    unfolding rmatch_href d tk by simp
qed

lemma drop_eq_conv_append: "drop (length pre) (pre @ rest) = rest"
  by simp

lemma tif_matches_exist:
  assumes "page = pre @ (''href='' @ [CHR 0x22]) @ x @ ''.tif'' @ CHR 0x22 # post"
    and "CHR 0x0A \<notin> set x"
  shows "FindAllStringSubmatch tif_re page \<noteq> []"
proof -
  let ?H = "''href='' @ [CHR 0x22]" and ?w = "''.tif''" and ?q = "CHR 0x22"
  have init: "replicate (NumSubexp tif_re) ([] :: string) = [[]]"
    unfolding tif_re_def NumSubexp_href by simp
  have progress: "\<forall>t x xs. rmatch tif_re t [[]] = x # xs \<longrightarrow> length (fst x) < length t"
  proof (intro allI impI)
    fix t x xs
    assume "rmatch tif_re t [[]] = x # xs"
    from rmatch_href_first [OF this [unfolded tif_re_def]] obtain k where
      H: "take (length ?H) t = ?H" and g: "greedy_at ?w ?q (drop (length ?H) t) k"
      and x: "x = (drop (Suc (k + length ?w)) (drop (length ?H) t),
                  [take (k + length ?w) (drop (length ?H) t)])"
      by blast
    have "k + length ?w < length (drop (length ?H) t)"
      using g by (simp add: greedy_at_def follows_at_def)
    with x show "length (fst x) < length t"
      by simp
  qed
  have d: "drop (length pre) page = ?H @ x @ ?w @ ?q # post"
    unfolding assms(1) by (rule drop_eq_conv_append)
  have "rmatch tif_re (drop (length pre) page) [[]] \<noteq> []"
    unfolding tif_re_def d by (rule rmatch_href_not_Nil [OF assms(2)])
  moreover have "length pre \<le> length page"
    unfolding assms(1) by (simp only: length_append le_add1)
  ultimately show ?thesis
    unfolding FindAllStringSubmatch_def by (rule findAll_not_Nil [OF init progress])
qed

lemma rmatch_suffix: "m \<in> set (rmatch r s caps) \<Longrightarrow> \<exists>p. s = p @ fst m"
proof (induction r s caps arbitrary: m rule: rmatch.induct)
  case (1 s caps)
  then show ?case by simp
next
  case (2 c s caps)
  then show ?case
    by (cases s) (auto split: if_splits intro: exI [of _ "[c]"])
next
  case (3 s caps)
  then show ?case
    by (cases s) (auto split: if_splits intro: exI [of _ "[hd s]"])
next
  case (4 r1 r2 s caps)
  from "4.prems" obtain x where x: "x \<in> set (rmatch r1 s caps)"
      and m: "m \<in> set (rmatch r2 (fst x) (snd x))"
    by auto
  from "4.IH"(1) [OF x] "4.IH"(2) [OF x m] obtain p1 p2 where
    "s = p1 @ fst x" "fst x = p2 @ fst m"
    by blast
  then have "s = (p1 @ p2) @ fst m"
    by simp
  then show ?case
    by blast
next
  case (5 r1 r2 s caps)
  from "5.prems" have "m \<in> set (rmatch r1 s caps) \<or> m \<in> set (rmatch r2 s caps)"
    by simp
  with "5.IH" show ?case
    by blast
next
  case (6 r s caps)
  from "6.prems" consider "m = (s, caps)"
    | x where "x \<in> set (rmatch r s caps)" "length (fst x) < length s"
        "m \<in> set (rmatch (Star r) (fst x) (snd x))"
    by (auto simp del: rmatch.simps simp add: rmatch.simps(6) [of r s caps] split: if_splits)
  then show ?case
  proof cases
    case 1
    then show ?thesis by simp
  next
    case (2 x)
    from "6.IH"(1) [OF 2(1)] "6.IH"(2) [OF 2] obtain p1 p2 where
      "s = p1 @ fst x" "fst x = p2 @ fst m"
      by blast
    then have "s = (p1 @ p2) @ fst m"
      by simp
    then show ?thesis
      by blast
  qed
next
  case (7 r s caps)
  from "7.prems" consider "m = (s, caps)"
    | x where "x \<in> set (rmatch r s caps)" "length (fst x) < length s"
        "m \<in> set (rmatch (LazyStar r) (fst x) (snd x))"
    by (auto simp del: rmatch.simps simp add: rmatch.simps(7) [of r s caps] split: if_splits)
  then show ?case
  proof cases
    case 1
    then show ?thesis by simp
  next
    case (2 x)
    from "7.IH"(1) [OF 2(1)] "7.IH"(2) [OF 2] obtain p1 p2 where
      "s = p1 @ fst x" "fst x = p2 @ fst m"
      by blast
    then have "s = (p1 @ p2) @ fst m"
      by simp
    then show ?thesis
      by blast
  qed
next
  case (8 i r s caps)
  from "8.prems" obtain x where "x \<in> set (rmatch r s caps)" and "fst m = fst x"
    by auto
  with "8.IH" [of x] show ?case
    by simp
qed

lemma rmatch_rest_line:
  "m \<in> set (rmatch r s caps) \<Longrightarrow> c \<notin> set s \<Longrightarrow> c \<notin> set (fst m) \<and> length (fst m) \<le> length s"
  using rmatch_suffix [of m r s caps] by auto

lemma concat_map_map:
  "(\<And>m. m \<in> set ms \<Longrightarrow> f m = map g (h m)) \<Longrightarrow> concat (map f ms) = map g (concat (map h ms))"
  by (induction ms) auto

text \<open>
  An expression without a newline literal matches in a line as it does in the line alone:
  what follows the line is carried along untouched.
\<close>

lemma rmatch_line:
  "no_newline r \<Longrightarrow> CHR 0x0A \<notin> set u \<Longrightarrow>
     rmatch r (u @ CHR 0x0A # rest) caps =
       map (\<lambda>m. (fst m @ CHR 0x0A # rest, snd m)) (rmatch r u caps)"
proof (induction r u caps rule: rmatch.induct)
  case (1 s caps)
  show ?case by simp
next
  case (2 c s caps)
  then show ?case
    by (cases s) auto
next
  case (3 s caps)
  then show ?case
    by (cases s) auto
next
  case (4 r1 r2 s caps)
  let ?X = "CHR 0x0A # rest"
  let ?ext = "\<lambda>m :: string \<times> string list. (fst m @ ?X, snd m)"
  have 1: "rmatch r1 (s @ ?X) caps = map ?ext (rmatch r1 s caps)"
    using "4.IH"(1) "4.prems" by simp
  have 2: "rmatch r2 (fst (?ext m)) (snd (?ext m)) = map ?ext (rmatch r2 (fst m) (snd m))"
    if "m \<in> set (rmatch r1 s caps)" for m
    using "4.IH"(2) [OF that] "4.prems" rmatch_rest_line [OF that, of "CHR 0x0A"] by simp
  have "rmatch (Seq r1 r2) (s @ ?X) caps =
      concat (map (\<lambda>m. rmatch r2 (fst (?ext m)) (snd (?ext m))) (rmatch r1 s caps))"
    by (simp add: 1 comp_def)
  also have "\<dots> = map ?ext (concat (map (\<lambda>m. rmatch r2 (fst m) (snd m)) (rmatch r1 s caps)))"
    by (rule concat_map_map) (rule 2)
  finally show ?case
    by simp
next
  case (5 r1 r2 s caps)
  then show ?case by simp
next
  case (6 r s caps)
  let ?X = "CHR 0x0A # rest"
  let ?ext = "\<lambda>m :: string \<times> string list. (fst m @ ?X, snd m)"
  let ?g = "\<lambda>m. if length (fst m) < length s then rmatch (Star r) (fst m) (snd m) else []"
  have 1: "rmatch r (s @ ?X) caps = map ?ext (rmatch r s caps)"
    using "6.IH"(1) "6.prems" by simp
  have 2: "(if length (fst (?ext m)) < length (s @ ?X)
            then rmatch (Star r) (fst (?ext m)) (snd (?ext m)) else []) = map ?ext (?g m)"
    if "m \<in> set (rmatch r s caps)" for m
    using "6.IH"(2) [OF that] "6.prems" rmatch_rest_line [OF that, of "CHR 0x0A"] by simp
  have "rmatch (Star r) (s @ ?X) caps =
      concat (map (\<lambda>m. if length (fst (?ext m)) < length (s @ ?X)
            then rmatch (Star r) (fst (?ext m)) (snd (?ext m)) else []) (rmatch r s caps))
      @ [(s @ ?X, caps)]"
    by (subst rmatch.simps) (simp add: 1 comp_def del: rmatch.simps)
  also have "concat (map (\<lambda>m. if length (fst (?ext m)) < length (s @ ?X)
            then rmatch (Star r) (fst (?ext m)) (snd (?ext m)) else []) (rmatch r s caps))
      = map ?ext (concat (map ?g (rmatch r s caps)))"
    by (rule concat_map_map) (rule 2)
  finally show ?case
    by (subst (2) rmatch.simps) (simp del: rmatch.simps)
next
  case (7 r s caps)
  let ?X = "CHR 0x0A # rest"
  let ?ext = "\<lambda>m :: string \<times> string list. (fst m @ ?X, snd m)"
  let ?g = "\<lambda>m. if length (fst m) < length s then rmatch (LazyStar r) (fst m) (snd m) else []"
  have 1: "rmatch r (s @ ?X) caps = map ?ext (rmatch r s caps)"
    using "7.IH"(1) "7.prems" by simp
  have 2: "(if length (fst (?ext m)) < length (s @ ?X)
            then rmatch (LazyStar r) (fst (?ext m)) (snd (?ext m)) else []) = map ?ext (?g m)"
    if "m \<in> set (rmatch r s caps)" for m
    using "7.IH"(2) [OF that] "7.prems" rmatch_rest_line [OF that, of "CHR 0x0A"] by simp
  have "rmatch (LazyStar r) (s @ ?X) caps =
      (s @ ?X, caps) #
      concat (map (\<lambda>m. if length (fst (?ext m)) < length (s @ ?X)
            then rmatch (LazyStar r) (fst (?ext m)) (snd (?ext m)) else []) (rmatch r s caps))"
    by (subst rmatch.simps) (simp add: 1 comp_def del: rmatch.simps)
  also have "concat (map (\<lambda>m. if length (fst (?ext m)) < length (s @ ?X)
            then rmatch (LazyStar r) (fst (?ext m)) (snd (?ext m)) else []) (rmatch r s caps))
      = map ?ext (concat (map ?g (rmatch r s caps)))"
    by (rule concat_map_map) (rule 2)
  finally show ?case
    by (subst (2) rmatch.simps) (simp del: rmatch.simps)
next
  case (8 i r s caps)
  let ?X = "CHR 0x0A # rest"
  let ?ext = "\<lambda>m :: string \<times> string list. (fst m @ ?X, snd m)"
  have 1: "rmatch r (s @ ?X) caps = map ?ext (rmatch r s caps)"
    using "8.IH" "8.prems" by simp
  have "(fst (?ext m), (snd (?ext m))[i - 1 := take (length (s @ ?X) - length (fst (?ext m))) (s @ ?X)])
      = ?ext (fst m, (snd m)[i - 1 := take (length s - length (fst m)) s])"
    if "m \<in> set (rmatch r s caps)" for m
    using rmatch_rest_line [OF that, of "CHR 0x0A"] "8.prems" by simp
  then show ?case
    by (simp add: 1 comp_def)
qed

text \<open>
  The matches of \<^verbatim>\<open>FindAllStringSubmatch\<close> in a text are those of its first line followed
  by those of the rest, for an expression without a newline literal that matches no
  empty string.
\<close>

lemma findAll_line_split:
  assumes nl: "no_newline re"
    and progress: "\<forall>t x. x \<in> set (rmatch re t (replicate (NumSubexp re) [])) \<longrightarrow>
                      length (fst x) < length t"
    and l: "CHR 0x0A \<notin> set l"
  shows "findAll re (l @ CHR 0x0A # rest) b = findAll re l b @ findAll re rest False"
  using l
proof (induction l arbitrary: b rule: length_induct)
  case (1 l)
  let ?X = "CHR 0x0A # rest"
  let ?init = "replicate (NumSubexp re) ([] :: string)"
  note line = rmatch_line [OF nl "1.prems", of rest ?init]
  show ?case
  proof (cases "rmatch re l ?init")
    case Nil
    then have n: "rmatch re (l @ ?X) ?init = []"
      using line by simp
    show ?thesis
    proof (cases l)
      case Nil_l: Nil
      have "findAll re (l @ ?X) b = findAll re rest False"
        using n Nil_l by (subst findAll.simps) simp
      moreover have "findAll re l b = []"
        using Nil Nil_l by (subst findAll.simps) simp
      ultimately show ?thesis
        by (simp del: findAll.simps)
    next
      case (Cons c cs)
      have "findAll re (l @ ?X) b = findAll re (cs @ ?X) False"
        using n Cons by (subst findAll.simps) simp
      also have "\<dots> = findAll re cs False @ findAll re rest False"
        using "1.IH" [rule_format, of cs False] "1.prems" Cons by (simp del: findAll.simps)
      also have "findAll re cs False = findAll re l b"
        using Nil Cons by (subst (2) findAll.simps) simp
      finally show ?thesis .
    qed
  next
    case (Cons m ms)
    then have m: "m \<in> set (rmatch re l ?init)"
      by simp
    from progress [rule_format, OF m] have lt: "length (fst m) < length l" .
    from rmatch_suffix [OF m] obtain p where p: "l = p @ fst m"
      by blast
    have pl: "length l - length (fst m) = length p" and pne: "p \<noteq> []"
      using p lt by auto
    have e: "rmatch re (l @ ?X) ?init = (fst m @ ?X, snd m) # map (\<lambda>m. (fst m @ ?X, snd m)) ms"
      using line Cons by simp
    have A: "findAll re (l @ ?X) b = (p # snd m) # findAll re (fst m @ ?X) True"
      using e pne by (subst findAll.simps) (simp add: p Let_def)
    have B: "findAll re (fst m @ ?X) True = findAll re (fst m) True @ findAll re rest False"
      using "1.IH" [rule_format, of "fst m" True] lt "1.prems" p by (simp del: findAll.simps)
    have C: "findAll re l b = (p # snd m) # findAll re (fst m) True"
      using Cons pl pne p by (subst findAll.simps) (simp add: Let_def)
    show ?thesis
      unfolding A B C by (simp del: findAll.simps)
  qed
qed

subsection \<open>Occurrences of a string\<close>

lemma occurrences_iff:
  "k \<in> set (occurrences w s) \<longleftrightarrow> k \<le> length s \<and> take (length w) (drop k s) = w"
  by (auto simp: occurrences_def simp del: upt_Suc)

lemma occurrences_Cons:
  "occurrences w (c # cs) =
     (if take (length w) (c # cs) = w then [0] else []) @ map Suc (occurrences w cs)"
proof -
  have "[0..<Suc (length (c # cs))] = 0 # map Suc [0..<Suc (length cs)]"
    using upt_conv_Cons [of 0 "Suc (Suc (length cs))"] map_Suc_upt [of 0 "Suc (length cs)"]
    by simp
  then show ?thesis
    unfolding occurrences_def by (simp add: filter_map comp_def del: upt_Suc)
qed

lemma sorted_le_last: "sorted xs \<Longrightarrow> k \<in> set xs \<Longrightarrow> (k :: nat) \<le> last xs"
  by (induction xs) auto

lemma occurrences_last:
  assumes "k \<in> set (occurrences w s)"
  shows "k \<le> last (occurrences w s)"
proof -
  have "sorted (occurrences w s)"
    unfolding occurrences_def by (rule sorted_wrt_filter) (simp del: upt_Suc)
  with assms show ?thesis
    by (intro sorted_le_last)
qed

lemma occurrences_drop:
  assumes "k \<in> set (occurrences w (drop n s))" and "w \<noteq> []"
  shows "n + k \<in> set (occurrences w s)"
proof -
  from assms(1) have t: "take (length w) (drop (n + k) s) = w"
    by (simp add: occurrences_iff add.commute)
  with assms(2) have "drop (n + k) s \<noteq> []"
    by auto
  then have "n + k \<le> length s"
    by simp
  with t show ?thesis
    by (simp add: occurrences_iff)
qed

lemma follows_at_occurrence:
  "follows_at w q s k \<longleftrightarrow> take (length (w @ [q])) (drop k s) = w @ [q]"
proof
  assume f: "follows_at w q s k"
  then have 1: "take (length w) (drop k s) = w" and 2: "k + length w < length s"
    and 3: "s ! (k + length w) = q"
    by (simp_all add: follows_at_def)
  have "take (Suc (length w)) (drop k s) = take (length w) (drop k s) @ [drop k s ! length w]"
    using 2 by (intro take_Suc_conv_app_nth) simp
  with 1 2 3 show "take (length (w @ [q])) (drop k s) = w @ [q]"
    by simp
next
  assume a: "take (length (w @ [q])) (drop k s) = w @ [q]"
  then have "length (take (length (w @ [q])) (drop k s)) = length (w @ [q])"
    by simp
  then have len: "length (w @ [q]) \<le> length (drop k s)"
    by simp
  then have 2: "k + length w < length s"
    by simp
  have "take (length w) (take (length (w @ [q])) (drop k s)) = take (length w) (w @ [q])"
    using a by simp
  then have 1: "take (length w) (drop k s) = w"
    by simp
  have "(take (length (w @ [q])) (drop k s)) ! length w = (w @ [q]) ! length w"
    using a by simp
  then have 3: "s ! (k + length w) = q"
    using 2 by simp
  from 1 2 3 show "follows_at w q s k"
    by (simp add: follows_at_def)
qed

lemma line_length_line:
  assumes "CHR 0x0A \<notin> set s"
  shows "line_length s = length s"
proof -
  have tw: "takeWhile (\<lambda>c. c \<noteq> CHR 0x0A) s = s"
    using assms by (auto simp: takeWhile_eq_all_conv)
  show ?thesis
    unfolding line_length_def tw by (rule refl)
qed

lemma greedy_candidates:
  assumes "CHR 0x0A \<notin> set s"
  shows "filter (follows_at w q s) (rev [0..<Suc (line_length s)]) = rev (occurrences (w @ [q]) s)"
  unfolding occurrences_def line_length_line [OF assms] rev_filter [symmetric]
  by (rule arg_cong [where f = rev], rule filter_cong) (simp_all add: follows_at_occurrence del: upt_Suc)

subsection \<open>The matches of a line\<close>

lemma rmatch_href_line:
  assumes "CHR 0x0A \<notin> set t"
  shows "rmatch (Seq (lits H) (Seq (Group 1 (Seq (Star AnyNotNL) (lits w))) (Lit q))) t [c] =
     (if take (length H) t = H
      then map (\<lambda>k. (drop (Suc (k + length w)) (drop (length H) t),
                      [take (k + length w) (drop (length H) t)]))
             (rev (occurrences (w @ [q]) (drop (length H) t)))
      else [])"
proof -
  have "CHR 0x0A \<notin> set (drop (length H) t)"
    using assms by (auto dest: in_set_dropD)
  from greedy_candidates [OF this] show ?thesis
    unfolding rmatch_href by simp
qed

lemma line_capture_Nil: "line_capture H w q [] = []"
  by (simp add: line_capture_def occurrences_def)

lemma line_capture_skip:
  assumes "take (length H) (c # cs) \<noteq> H \<or> occurrences (w @ [q]) (drop (length H) (c # cs)) = []"
  shows "line_capture H w q (c # cs) = line_capture H w q cs"
proof (cases "take (length H) (c # cs) = H")
  case False
  then have o: "occurrences H (c # cs) = map Suc (occurrences H cs)"
    by (simp add: occurrences_Cons)
  show ?thesis
    unfolding line_capture_def o by (cases "occurrences H cs") simp_all
next
  case True
  with assms have none: "occurrences (w @ [q]) (drop (length H) (c # cs)) = []"
    by simp
  from True have o: "occurrences H (c # cs) = 0 # map Suc (occurrences H cs)"
    by (simp add: occurrences_Cons)
  have l: "line_capture H w q (c # cs) = []"
    unfolding line_capture_def o using none by simp
  have r: "line_capture H w q cs = []"
  proof (cases "occurrences H cs")
    case Nil
    then show ?thesis by (simp add: line_capture_def)
  next
    case (Cons p ps)
    have "occurrences (w @ [q]) (drop (p + length H) cs) = []"
    proof (rule ccontr)
      assume "occurrences (w @ [q]) (drop (p + length H) cs) \<noteq> []"
      then obtain k where k: "k \<in> set (occurrences (w @ [q]) (drop (p + length H) cs))"
        by (cases "occurrences (w @ [q]) (drop (p + length H) cs)") auto
      have eq: "drop (p + length H) cs = drop (Suc p) (drop (length H) (c # cs))"
        by (simp add: add.commute)
      from k have "k \<in> set (occurrences (w @ [q]) (drop (Suc p) (drop (length H) (c # cs))))"
        by (simp only: eq)
      then have "Suc p + k \<in> set (occurrences (w @ [q]) (drop (length H) (c # cs)))"
        by (rule occurrences_drop) simp
      with none show False
        by (simp only: empty_iff list.set(1))
    qed
    with Cons show ?thesis
      by (simp add: line_capture_def)
  qed
  from l r show ?thesis
    by simp
qed

lemma line_capture_after:
  assumes "occurrences (w @ [q]) s \<noteq> []"
  shows "line_capture H w q (drop (Suc (last (occurrences (w @ [q]) s) + length w)) s) = []"
proof -
  let ?k = "last (occurrences (w @ [q]) s)"
  let ?r = "drop (Suc (?k + length w)) s"
  show ?thesis
  proof (cases "occurrences H ?r")
    case Nil
    then show ?thesis by (simp add: line_capture_def)
  next
    case (Cons p ps)
    have "occurrences (w @ [q]) (drop (p + length H) ?r) = []"
    proof (rule ccontr)
      assume "occurrences (w @ [q]) (drop (p + length H) ?r) \<noteq> []"
      then obtain k where "k \<in> set (occurrences (w @ [q]) (drop (p + length H) ?r))"
        by (cases "occurrences (w @ [q]) (drop (p + length H) ?r)") auto
      moreover have "drop (p + length H) ?r = drop (p + length H + Suc (?k + length w)) s"
        by simp
      ultimately have "p + length H + Suc (?k + length w) + k \<in> set (occurrences (w @ [q]) s)"
        using occurrences_drop [of k "w @ [q]" "p + length H + Suc (?k + length w)" s] by simp
      from occurrences_last [OF this] show False
        by simp
    qed
    with Cons show ?thesis
      by (simp add: line_capture_def)
  qed
qed

text \<open>
  In a line the expression \<^verbatim>\<open>H(.*w)q\<close> has at most one match: from the first \<open>H\<close> to the
  last \<open>w\<close> followed by \<open>q\<close>.
\<close>

lemma findAll_line:
  assumes "CHR 0x0A \<notin> set l"
  shows "findAll (Seq (lits H) (Seq (Group 1 (Seq (Star AnyNotNL) (lits w))) (Lit q))) l b =
           map (\<lambda>c. [H @ c @ [q], c]) (line_capture H w q l)"
proof -
  define re where "re = Seq (lits H) (Seq (Group 1 (Seq (Star AnyNotNL) (lits w))) (Lit q))"
  have init: "replicate (NumSubexp re) ([] :: string) = [[]]"
    unfolding re_def NumSubexp_href by simp
  have "findAll re l b = map (\<lambda>c. [H @ c @ [q], c]) (line_capture H w q l)"
    using assms
  proof (induction l arbitrary: b rule: length_induct)
  case (1 l)
  let ?re = re
  let ?s = "drop (length H) l"
  let ?occ = "occurrences (w @ [q]) ?s"
  let ?f = "\<lambda>k. (drop (Suc (k + length w)) ?s, [take (k + length w) ?s])"
  note rm = rmatch_href_line [OF "1.prems", of H w q "[]", folded re_def]
  show ?case
  proof (cases "rmatch ?re l [[]]")
    case Nil
    show ?thesis
    proof (cases l)
      case Nil_l: Nil
      have "findAll ?re l b = []"
        using Nil Nil_l init by (subst findAll.simps) simp
      with Nil_l show ?thesis
        by (simp add: line_capture_Nil del: findAll.simps)
    next
      case (Cons c cs)
      have "findAll ?re l b = findAll ?re cs False"
        using Nil Cons init by (subst findAll.simps) simp
      also have "\<dots> = map (\<lambda>c. [H @ c @ [q], c]) (line_capture H w q cs)"
        using "1.IH" [rule_format, of cs False] "1.prems" Cons by (simp del: findAll.simps)
      also have "line_capture H w q cs = line_capture H w q l"
      proof -
        have "take (length H) l \<noteq> H \<or> ?occ = []"
          using Nil unfolding rm by (cases "take (length H) l = H") simp_all
        from line_capture_skip [OF this [unfolded Cons]] Cons show ?thesis
          by simp
      qed
      finally show ?thesis .
    qed
  next
    case (Cons m ms)
    then have H: "take (length H) l = H" and mp: "map ?f (rev ?occ) = m # ms"
      unfolding rm by (cases "take (length H) l = H"; simp)+
    from mp have ne: "?occ \<noteq> []"
      by auto
    let ?k = "last ?occ"
    have "rev (butlast ?occ @ [?k]) = ?k # rev (butlast ?occ)"
      by simp
    then have rv: "rev ?occ = ?k # rev (butlast ?occ)"
      using ne by simp
    with mp have m: "m = ?f ?k"
      by simp
    have "?k \<in> set ?occ"
      using ne by simp
    then have "take (length (w @ [q])) (drop ?k ?s) = w @ [q]"
      by (simp add: occurrences_iff)
    then have fo: "follows_at w q ?s ?k"
      by (simp only: follows_at_occurrence)
    then have lt: "?k + length w < length ?s" and sq: "?s ! (?k + length w) = q"
      by (simp_all add: follows_at_def)
    let ?n = "length H + Suc (?k + length w)"
    have l: "l = H @ ?s"
      using H append_take_drop_id [of "length H" l] by simp
    have lenH: "length H \<le> length l"
      using arg_cong [OF H, of length] by simp
    have consumed: "length l - length (fst m) = ?n"
      using m lt lenH by simp
    have whole: "take ?n l = H @ take (?k + length w) ?s @ [q]"
    proof -
      have "take ?n (H @ ?s) = H @ take (Suc (?k + length w)) ?s"
        by simp
      also have "take (Suc (?k + length w)) ?s = take (?k + length w) ?s @ [q]"
        using lt sq by (simp add: take_Suc_conv_app_nth)
      finally show ?thesis
        using l by simp
    qed
    have rest: "drop ?n l = drop (Suc (?k + length w)) ?s"
      by (simp add: add.commute)
    have "findAll ?re l b = (take ?n l # snd m) # findAll ?re (drop ?n l) True"
      using Cons consumed init by (subst findAll.simps) (simp add: Let_def)
    also have "findAll ?re (drop ?n l) True =
        map (\<lambda>c. [H @ c @ [q], c]) (line_capture H w q (drop ?n l))"
    proof -
      have sh: "length (drop ?n l) < length l"
        using lt lenH by simp
      have nn: "CHR 0x0A \<notin> set (drop ?n l)"
        using "1.prems" by (auto dest: in_set_dropD)
      from "1.IH" [rule_format, OF sh nn] show ?thesis .
    qed
    also have "line_capture H w q (drop ?n l) = []"
      unfolding rest using ne by (rule line_capture_after)
    finally have fa: "findAll ?re l b = [[H @ take (?k + length w) ?s @ [q], take (?k + length w) ?s]]"
      using whole m by (simp del: findAll.simps)
    have "line_capture H w q l = [take (?k + length w) ?s]"
    proof -
      from lt obtain c cs where lc: "l = c # cs"
        by (cases l) auto
      have "occurrences H l = 0 # map Suc (occurrences H cs)"
        using H unfolding lc by (simp add: occurrences_Cons)
      moreover obtain k ks where "?occ = k # ks"
        using ne by (cases ?occ) auto
      ultimately show ?thesis
        by (simp add: line_capture_def)
    qed
    with fa show ?thesis
      by (simp del: findAll.simps)
  qed
  qed
  then show ?thesis
    unfolding re_def .
qed

subsection \<open>The matches of a page\<close>

lemma tif_progress:
  "\<forall>t x. x \<in> set (rmatch (Seq (lits H) (Seq (Group 1 (Seq (Star AnyNotNL) (lits w))) (Lit q))) t [c])
     \<longrightarrow> length (fst x) < length t"
proof (intro allI impI)
  fix t x
  assume "x \<in> set (rmatch (Seq (lits H) (Seq (Group 1 (Seq (Star AnyNotNL) (lits w))) (Lit q))) t [c])"
  then obtain k where "follows_at w q (drop (length H) t) k"
    and "x = (drop (Suc (k + length w)) (drop (length H) t), [take (k + length w) (drop (length H) t)])"
    unfolding rmatch_href by (auto split: if_splits)
  then show "length (fst x) < length t"
    by (auto simp: follows_at_def)
qed

lemma no_newline_lits: "no_newline (lits w) = (CHR 0x0A \<notin> set w)"
  by (induction w) auto

lemma findAll_lines:
  assumes "CHR 0x0A \<notin> set H" and "CHR 0x0A \<notin> set w" and "q \<noteq> CHR 0x0A"
  shows "findAll (Seq (lits H) (Seq (Group 1 (Seq (Star AnyNotNL) (lits w))) (Lit q))) page b =
           map (\<lambda>c. [H @ c @ [q], c])
             (concat (map (line_capture H w q) (Split page (CHR 0x0A))))"
proof -
  define re where "re = Seq (lits H) (Seq (Group 1 (Seq (Star AnyNotNL) (lits w))) (Lit q))"
  have nl: "no_newline re"
    using assms by (simp add: re_def no_newline_lits)
  have init: "replicate (NumSubexp re) ([] :: string) = [[]]"
    unfolding re_def NumSubexp_href by simp
  have progress: "\<forall>t x. x \<in> set (rmatch re t (replicate (NumSubexp re) [])) \<longrightarrow>
      length (fst x) < length t"
    unfolding init unfolding re_def by (rule tif_progress)
  have line: "findAll re l b = map (\<lambda>c. [H @ c @ [q], c]) (line_capture H w q l)"
    if "CHR 0x0A \<notin> set l" for l b
    unfolding re_def using that by (rule findAll_line)
  have "findAll re page b =
      map (\<lambda>c. [H @ c @ [q], c]) (concat (map (line_capture H w q) (Split page (CHR 0x0A))))"
  proof (induction page arbitrary: b rule: length_induct)
    case (1 page)
    show ?case
    proof (cases "CHR 0x0A \<in> set page")
      case False
      then show ?thesis
        by (simp add: Split_no_sep line del: findAll.simps)
    next
      case True
      then obtain l rest where p: "page = l @ CHR 0x0A # rest" and l: "CHR 0x0A \<notin> set l"
        by (auto dest: split_list_first)
      have A: "findAll re page b = findAll re l b @ findAll re rest False"
        unfolding p using nl progress l by (rule findAll_line_split)
      have B: "findAll re rest False =
          map (\<lambda>c. [H @ c @ [q], c]) (concat (map (line_capture H w q) (Split rest (CHR 0x0A))))"
        using "1.IH" [rule_format, of rest False] p by (simp del: findAll.simps)
      have C: "Split page (CHR 0x0A) = l # Split rest (CHR 0x0A)"
        unfolding p Split_append_sep using l by (simp add: Split_no_sep)
      show ?thesis
        unfolding A B C line [OF l] by simp
    qed
  qed
  then show ?thesis
    unfolding re_def .
qed

text \<open>The matches of getTifUrls' expression in a page are the captures of its lines.\<close>

lemma tif_matches_captures:
  "FindAllStringSubmatch tif_re page =
     map (\<lambda>c. [(''href='' @ [CHR 0x22]) @ c @ [CHR 0x22], c]) (tif_captures page)"
  unfolding FindAllStringSubmatch_def tif_re_def tif_captures_def
  by (rule findAll_lines) simp_all

lemma getTifUrls_captures:
  "fst (getTifUrls pageURL page) =
     map (\<lambda>c. pageURL\<lparr>Path := path_Join [Path pageURL, c]\<rparr>) (tif_captures page)"
  unfolding getTifUrls_map tif_matches_captures by (simp add: comp_def)

lemma demo_two_links_greedy:
  "getTifUrls demo_sub demo_two_links =
     ([demo_sub\<lparr>Path := ''/archive/vol1/tileSG-5/a.tif'' @ [CHR 0x22] @ ''>a</a> <a href=''
                          @ [CHR 0x22] @ ''b.tif''\<rparr>], LeftOpen)"
  by (simp add: getTifUrls_def demo_root_def demo_two_links_def demo_sub_def
      FindAllStringSubmatch_def tif_re_def path_defs)

lemma demo_two_links_nongreedy:
  "getTifUrls_nongreedy demo_sub demo_two_links =
     ([demo_sub\<lparr>Path := ''/archive/vol1/tileSG-5/a.tif''\<rparr>,
       demo_sub\<lparr>Path := ''/archive/vol1/tileSG-5/b.tif''\<rparr>], LeftOpen)"
  by (simp add: getTifUrls_nongreedy_def demo_root_def demo_two_links_def demo_sub_def
      FindAllStringSubmatch_def tif_re_nongreedy_def path_defs)

lemma demo_two_lines_greedy:
  "getTifUrls demo_sub demo_two_lines =
     ([demo_sub\<lparr>Path := ''/archive/vol1/tileSG-5/a.tif''\<rparr>,
       demo_sub\<lparr>Path := ''/archive/vol1/tileSG-5/b.tif''\<rparr>], LeftOpen)"
  by (simp add: getTifUrls_def demo_root_def demo_two_lines_def demo_sub_def
      FindAllStringSubmatch_def tif_re_def path_defs)

lemma demo_captures:
  "tif_captures demo_subpage = [''image1.tif'']"
  "tif_captures demo_two_lines = [''a.tif'', ''b.tif'']"
  "tif_captures demo_two_links =
     [''a.tif'' @ [CHR 0x22] @ ''>a</a> <a href='' @ [CHR 0x22] @ ''b.tif'']"
  by (simp_all add: tif_captures_def line_capture_def occurrences_def
      demo_subpage_def demo_two_lines_def demo_two_links_def)

text \<open>
  Claim C5, as the code has it. The file URLs that getTifUrls sends are, in this order,
  the URL of the sub-page with each capture of the body joined onto its path, where the
  captures are those of the lines of the body, from the first line to the last, and a
  line has at most one: from after its first \<^verbatim>\<open>href="\<close> to its last \<^verbatim>\<open>.tif\<close> that a double
  quote follows. So every capture stands in the body between \<^verbatim>\<open>href="\<close> and a double
  quote, ends in \<^verbatim>\<open>.tif\<close>, has no newline, and is greedy: no later \<^verbatim>\<open>.tif"\<close> of the same
  line follows it; and no URL is sent exactly when the body has no \<^verbatim>\<open>href="\<close> followed on
  its line by \<^verbatim>\<open>.tif"\<close>. The body with the links to \<^verbatim>\<open>image1.tif\<close> and \<^verbatim>\<open>notes.txt\<close> on two
  lines gives the one URL of \<^verbatim>\<open>image1.tif\<close>.
\<close>

theorem getTifUrls_matches_greedily:
  "fst (getTifUrls pageURL page) =
     map (\<lambda>c. pageURL\<lparr>Path := path_Join [Path pageURL, c]\<rparr>) (tif_captures page)
   \<and> (\<forall>fileUrl \<in> set (fst (getTifUrls pageURL page)).
      \<exists>pre x post.
        page = pre @ ''href='' @ [CHR 0x22] @ x @ ''.tif'' @ [CHR 0x22] @ post
        \<and> CHR 0x0A \<notin> set x
        \<and> (\<forall>y z. post = y @ ''.tif'' @ [CHR 0x22] @ z \<longrightarrow> CHR 0x0A \<in> set y)
        \<and> fileUrl = pageURL\<lparr>Path := path_Join [Path pageURL, x @ ''.tif'']\<rparr>)
   \<and> (fst (getTifUrls pageURL page) = []) =
       (\<nexists>pre x post.
          page = pre @ ''href='' @ [CHR 0x22] @ x @ ''.tif'' @ [CHR 0x22] @ post
          \<and> CHR 0x0A \<notin> set x)
   \<and> fst (getTifUrls demo_sub demo_subpage) = [demo_file]"
proof -
  have sound: "\<exists>pre x post.
        page = pre @ ''href='' @ [CHR 0x22] @ x @ ''.tif'' @ [CHR 0x22] @ post
        \<and> CHR 0x0A \<notin> set x
        \<and> (\<forall>y z. post = y @ ''.tif'' @ [CHR 0x22] @ z \<longrightarrow> CHR 0x0A \<in> set y)
        \<and> fileUrl = pageURL\<lparr>Path := path_Join [Path pageURL, x @ ''.tif'']\<rparr>"
    if "fileUrl \<in> set (fst (getTifUrls pageURL page))" for fileUrl
  proof -
    from getTifUrls_from_match [OF that] obtain m where
      m: "m \<in> set (FindAllStringSubmatch tif_re page)"
      and u: "fileUrl = pageURL\<lparr>Path := path_Join [Path pageURL, m ! 1]\<rparr>"
      by blast
    from tif_matches_greedy [OF m] u show ?thesis
      by (metis append_Cons append_Nil)
  qed
  have none: "(fst (getTifUrls pageURL page) = []) =
       (\<nexists>pre x post.
          page = pre @ ''href='' @ [CHR 0x22] @ x @ ''.tif'' @ [CHR 0x22] @ post
          \<and> CHR 0x0A \<notin> set x)"
  proof
    assume e: "fst (getTifUrls pageURL page) = []"
    show "\<nexists>pre x post.
          page = pre @ ''href='' @ [CHR 0x22] @ x @ ''.tif'' @ [CHR 0x22] @ post
          \<and> CHR 0x0A \<notin> set x"
    proof
      assume "\<exists>pre x post.
          page = pre @ ''href='' @ [CHR 0x22] @ x @ ''.tif'' @ [CHR 0x22] @ post
          \<and> CHR 0x0A \<notin> set x"
      then obtain pre x post where
        "page = pre @ (''href='' @ [CHR 0x22]) @ x @ ''.tif'' @ CHR 0x22 # post"
        "CHR 0x0A \<notin> set x"
        by auto
      then have "FindAllStringSubmatch tif_re page \<noteq> []"
        by (rule tif_matches_exist)
      with e show False
        by (simp add: getTifUrls_map)
    qed
  next
    assume n: "\<nexists>pre x post.
          page = pre @ ''href='' @ [CHR 0x22] @ x @ ''.tif'' @ [CHR 0x22] @ post
          \<and> CHR 0x0A \<notin> set x"
    show "fst (getTifUrls pageURL page) = []"
    proof (rule ccontr)
      assume "fst (getTifUrls pageURL page) \<noteq> []"
      then obtain fileUrl where "fileUrl \<in> set (fst (getTifUrls pageURL page))"
        by (cases "fst (getTifUrls pageURL page)") auto
      from sound [OF this] n show False
        by blast
    qed
  qed
  have demo: "fst (getTifUrls demo_sub demo_subpage) = [demo_file]"
    by (simp add: demo_getTifUrls)
  from getTifUrls_captures [of pageURL page] sound none demo show ?thesis
    by blast
qed

text \<open>
  On the small archive: the tile of the sub-page, found between the two quotes; and two
  tiles linked on two lines, found in the order of the lines.
\<close>

theorem getTifUrls_matches_greedily_witness:
  "demo_file \<in> set (fst (getTifUrls demo_sub demo_subpage))
   \<and> (\<exists>pre x post.
        demo_subpage = pre @ ''href='' @ [CHR 0x22] @ x @ ''.tif'' @ [CHR 0x22] @ post
        \<and> CHR 0x0A \<notin> set x
        \<and> demo_file = demo_sub\<lparr>Path := path_Join [Path demo_sub, x @ ''.tif'']\<rparr>)
   \<and> tif_captures demo_subpage = [''image1.tif'']
   \<and> tif_captures demo_two_lines = [''a.tif'', ''b.tif'']
   \<and> fst (getTifUrls demo_sub demo_two_lines) =
       map (\<lambda>c. demo_sub\<lparr>Path := path_Join [Path demo_sub, c]\<rparr>) [''a.tif'', ''b.tif'']
   \<and> map Path (fst (getTifUrls demo_sub demo_two_lines)) =
       [''/archive/vol1/tileSG-5/a.tif'', ''/archive/vol1/tileSG-5/b.tif'']"
proof -
  have f: "demo_file \<in> set (fst (getTifUrls demo_sub demo_subpage))"
    by (simp add: demo_getTifUrls)
  with getTifUrls_matches_greedily [of demo_sub demo_subpage] have
    "\<exists>pre x post.
        demo_subpage = pre @ ''href='' @ [CHR 0x22] @ x @ ''.tif'' @ [CHR 0x22] @ post
        \<and> CHR 0x0A \<notin> set x
        \<and> demo_file = demo_sub\<lparr>Path := path_Join [Path demo_sub, x @ ''.tif'']\<rparr>"
    by blast
  moreover have "fst (getTifUrls demo_sub demo_two_lines) =
       map (\<lambda>c. demo_sub\<lparr>Path := path_Join [Path demo_sub, c]\<rparr>) [''a.tif'', ''b.tif'']"
    using getTifUrls_matches_greedily [of demo_sub demo_two_lines]
    by (simp only: demo_captures)
  moreover have "map Path (fst (getTifUrls demo_sub demo_two_lines)) =
       [''/archive/vol1/tileSG-5/a.tif'', ''/archive/vol1/tileSG-5/b.tif'']"
    by (simp add: demo_two_lines_greedy)
  ultimately show ?thesis
    using f by (simp only: demo_captures simp_thms)
qed

text \<open>
  Against the non-greedy match of the specification: two tiles linked on one line give
  one URL with the code (its path runs from the first tile's name to the second's) and
  two URLs with the non-greedy expression.
\<close>

theorem getTifUrls_nongreedy_counterexample:
  "map Path (fst (getTifUrls demo_sub demo_two_links)) =
     [''/archive/vol1/tileSG-5/a.tif'' @ [CHR 0x22] @ ''>a</a> <a href='' @ [CHR 0x22] @ ''b.tif'']
   \<and> map Path (fst (getTifUrls_nongreedy demo_sub demo_two_links)) =
     [''/archive/vol1/tileSG-5/a.tif'', ''/archive/vol1/tileSG-5/b.tif'']
   \<and> fst (getTifUrls demo_sub demo_two_links) \<noteq> fst (getTifUrls_nongreedy demo_sub demo_two_links)"
  by (simp add: demo_two_links_greedy demo_two_links_nongreedy)


end
